theory Spec2Isabelle
  imports Main "HOL-Library.Sublist"
begin

section \<open>JavaScript strings\<close>

text \<open>
  A JavaScript string is modelled as a \<^typ>\<open>string\<close>, one \<^typ>\<open>char\<close> per code unit.
  The characters the program tests for are named here.
\<close>

abbreviation LF :: char where "LF \<equiv> CHR 0x0A"
abbreviation CR :: char where "CR \<equiv> CHR 0x0D"
abbreviation TAB :: char where "TAB \<equiv> CHR 0x09"
abbreviation SP :: char where "SP \<equiv> CHR 0x20"
abbreviation NBSP :: char where "NBSP \<equiv> CHR 0xA0"
abbreviation TICK :: char where "TICK \<equiv> CHR 0x60"

text \<open>
  The class \<open>\s\<close> of a regular expression, which is also what \<open>trim\<close> removes: the
  white space and line terminator code units. Those below 256 are tab, line feed,
  vertical tab, form feed, carriage return, space and no-break space.
\<close>

definition is_space :: "char \<Rightarrow> bool" where
  "is_space c \<longleftrightarrow> c = TAB \<or> c = LF \<or> c = CHR 0x0B \<or> c = CHR 0x0C \<or> c = CR \<or> c = SP \<or> c = NBSP"

text \<open>The class \<open>[ \t]\<close>.\<close>

definition is_blank :: "char \<Rightarrow> bool" where
  "is_blank c \<longleftrightarrow> c = SP \<or> c = TAB"

definition trimStart :: "string \<Rightarrow> string" where
  "trimStart s = dropWhile is_space s"

definition trimEnd :: "string \<Rightarrow> string" where
  "trimEnd s = rev (dropWhile is_space (rev s))"

definition trim :: "string \<Rightarrow> string" where
  "trim s = trimEnd (trimStart s)"

text \<open>\<open>parts.join(sep)\<close>.\<close>

fun join :: "string \<Rightarrow> string list \<Rightarrow> string" where
  "join sep [] = []"
| "join sep [x] = x"
| "join sep (x # y # ys) = x @ sep @ join sep (y # ys)"

section \<open>Whitespace normalisation\<close>

text \<open>\<open>s.replace(/\r\n/g, "\n")\<close>: the scan goes left to right and resumes after each match.\<close>

fun replace_crlf :: "string \<Rightarrow> string" where
  "replace_crlf (c # d # cs) =
     (if c = CR \<and> d = LF then LF # replace_crlf cs else c # replace_crlf (d # cs))"
| "replace_crlf cs = cs"

text \<open>\<open>s.replace(/\r/g, "\n")\<close>.\<close>

definition replace_cr :: "string \<Rightarrow> string" where
  "replace_cr s = map (\<lambda>c. if c = CR then LF else c) s"

text \<open>
  \<open>s.replace(/[ \t]+\n/g, "\n")\<close>. At a blank the greedy \<open>[ \t]+\<close> takes the whole run
  of blanks; the match succeeds when a line feed follows the run (a shorter run is
  followed by a blank, so backtracking finds nothing), and the scan resumes after that
  line feed. Otherwise there is no match at this position, the character is copied and
  the scan moves one position on.
\<close>

function strip_blanks_before_nl :: "string \<Rightarrow> string" where
  "strip_blanks_before_nl [] = []"
| "strip_blanks_before_nl (c # cs) =
     (if is_blank c then
        (case dropWhile is_blank cs of
           [] \<Rightarrow> c # strip_blanks_before_nl cs
         | d # rest \<Rightarrow>
             if d = LF then LF # strip_blanks_before_nl rest
             else c # strip_blanks_before_nl cs)
      else c # strip_blanks_before_nl cs)"
  by pat_completeness auto
termination
proof (relation "measure length")
  fix c :: char and cs d rest
  assume "dropWhile is_blank cs = d # rest"
  then have "length (d # rest) \<le> length cs"
    by (metis length_dropWhile_le)
  then show "(rest, c # cs) \<in> measure length" by simp
qed auto

text \<open>
  \<open>s.replace(/\n{k,}/g, r)\<close> for a fixed \<open>k \<ge> 1\<close>: at a line feed the greedy quantifier
  takes the whole run of line feeds; a run of at least \<open>k\<close> is replaced by \<open>r\<close> and the
  scan resumes after the run, a shorter run has no match at any of its positions.
\<close>

function replace_nl_runs :: "nat \<Rightarrow> string \<Rightarrow> string \<Rightarrow> string" where
  "replace_nl_runs k r [] = []"
| "replace_nl_runs k r (c # cs) =
     (if c = LF \<and> k \<le> Suc (length (takeWhile (\<lambda>x. x = LF) cs))
      then r @ replace_nl_runs k r (dropWhile (\<lambda>x. x = LF) cs)
      else c # replace_nl_runs k r cs)"
  by pat_completeness auto
termination
  by (relation "measure (\<lambda>(k, r, s). length s)")
     (auto simp: less_Suc_eq_le length_dropWhile_le)

definition cleanupMarkdownInline :: "string \<Rightarrow> string" where
  "cleanupMarkdownInline text = replace_nl_runs 2 [LF] (strip_blanks_before_nl text)"

definition cleanupMarkdown :: "string \<Rightarrow> string" where
  "cleanupMarkdown text =
     trim (replace_nl_runs 3 [LF, LF]
       (strip_blanks_before_nl (replace_cr (replace_crlf text))))"

section \<open>Code fences\<close>

text \<open>\<open>String(code).match(/`+/g) || []\<close>: the maximal runs of backticks, left to right.\<close>

function tick_runs :: "string \<Rightarrow> string list" where
  "tick_runs [] = []"
| "tick_runs (c # cs) =
     (if c = TICK
      then (c # takeWhile (\<lambda>x. x = TICK) cs) # tick_runs (dropWhile (\<lambda>x. x = TICK) cs)
      else tick_runs cs)"
  by pat_completeness auto
termination
  by (relation "measure length") (auto simp: less_Suc_eq_le length_dropWhile_le)

definition makeFence :: "string \<Rightarrow> string" where
  "makeFence code =
     (let matches = tick_runs code;
          mx = foldl (\<lambda>m s. max m (length s)) 0 matches;
          len = max 3 (mx + 1)
      in replicate len TICK)"

definition makeInlineFence :: "string \<Rightarrow> string" where
  "makeInlineFence text =
     (let matches = tick_runs text;
          mx = foldl (\<lambda>m s. max m (length s)) 0 matches
      in replicate (mx + 1) TICK)"
section \<open>Effects: exceptions and the live page\<close>

text \<open>
  A thrown JavaScript value is an \<open>exn\<close>; only its message is ever read by the program.
  A computation that can throw has a result of type \<open>exn + 'a\<close>: \<open>Inl e\<close> is
  \<open>throw e\<close>, \<open>Inr v\<close> is a normal return of \<open>v\<close>.

  The page (document, window, clock, timers) is a value of an arbitrary type \<open>'w\<close>.
  A statement that touches the page is a function from the page before to its result
  and the page after. The state is kept when an exception is thrown, as it is in
  JavaScript.
\<close>

datatype exn = JsError string

type_synonym ('a, 'w) prog = "'w \<Rightarrow> (exn + 'a) \<times> 'w"

definition ret :: "'a \<Rightarrow> ('a, 'w) prog" where
  "ret x = (\<lambda>w. (Inr x, w))"

definition throw :: "exn \<Rightarrow> ('a, 'w) prog" where
  "throw e = (\<lambda>w. (Inl e, w))"

text \<open>Sequencing: an exception of the first statement skips the rest.\<close>

definition bind :: "('a, 'w) prog \<Rightarrow> ('a \<Rightarrow> ('b, 'w) prog) \<Rightarrow> ('b, 'w) prog" where
  "bind m f = (\<lambda>w. case m w of (Inl e, w') \<Rightarrow> (Inl e, w') | (Inr x, w') \<Rightarrow> f x w')"

text \<open>\<open>try { m } catch (e) { h e }\<close>.\<close>

definition try_catch :: "('a, 'w) prog \<Rightarrow> (exn \<Rightarrow> ('a, 'w) prog) \<Rightarrow> ('a, 'w) prog" where
  "try_catch m h = (\<lambda>w. case m w of (Inl e, w') \<Rightarrow> h e w' | (Inr x, w') \<Rightarrow> (Inr x, w'))"

text \<open>
  \<open>try { m } finally { fin }\<close>: \<open>fin\<close> runs after \<open>m\<close> however \<open>m\<close> ended; the outcome
  is that of \<open>m\<close>, unless \<open>fin\<close> itself throws.
\<close>

definition try_finally :: "('a, 'w) prog \<Rightarrow> (unit, 'w) prog \<Rightarrow> ('a, 'w) prog" where
  "try_finally m fin =
     (\<lambda>w. case m w of (r, w') \<Rightarrow>
        (case fin w' of (Inl e, w'') \<Rightarrow> (Inl e, w'') | (Inr u, w'') \<Rightarrow> (r, w'')))"

section \<open>The poller \<open>waitFor\<close>\<close>

text \<open>
  What \<open>waitFor\<close> uses of the page: the clock \<open>Date.now()\<close> in milliseconds, the awaited
  timer \<open>setTimeout(r, interval)\<close> (the page after the wait), and which values are truthy.
\<close>

record ('v, 'w) timing =
  now :: "'w \<Rightarrow> int"
  setTimeout :: "int \<Rightarrow> 'w \<Rightarrow> 'w"
  truthy :: "'v \<Rightarrow> bool"

text \<open>
  One round of the \<open>try\<close> block: \<open>const result = await fn(); if (result) return result;\<close>
  with the empty \<open>catch\<close>. \<open>Some result\<close> is the \<open>return\<close>, \<open>None\<close> falls through to the
  timer.
\<close>

definition poll_once :: "('v, 'w) timing \<Rightarrow> ('v, 'w) prog \<Rightarrow> ('v option, 'w) prog" where
  "poll_once T fn =
     try_catch
       (bind fn (\<lambda>result. if truthy T result then ret (Some result) else ret None))
       (\<lambda>e. ret None)"

text \<open>
  The \<open>while\<close> loop. It may run forever, so the model returns an option: \<open>None\<close> is a
  call that never returns. The final \<open>None\<close> inside \<open>Inr\<close> is JavaScript's \<open>null\<close>.
\<close>

partial_function (option) waitFor_loop ::
  "('v, 'w) timing \<Rightarrow> ('v, 'w) prog \<Rightarrow> int \<Rightarrow> int \<Rightarrow> int \<Rightarrow> 'w \<Rightarrow> ((exn + 'v option) \<times> 'w) option"
where
  "waitFor_loop T fn start timeout interval w =
     (if now T w - start < timeout then
        (case poll_once T fn w of
           (Inl e, w') \<Rightarrow> Some (Inl e, w')
         | (Inr (Some result), w') \<Rightarrow> Some (Inr (Some result), w')
         | (Inr None, w') \<Rightarrow> waitFor_loop T fn start timeout interval (setTimeout T interval w'))
      else Some (Inr None, w))"

definition waitFor ::
  "('v, 'w) timing \<Rightarrow> ('v, 'w) prog \<Rightarrow> int \<Rightarrow> int \<Rightarrow> 'w \<Rightarrow> ((exn + 'v option) \<times> 'w) option"
where
  "waitFor T fn timeout interval w = waitFor_loop T fn (now T w) timeout interval w"

section \<open>More string operations\<close>

text \<open>\<open>s.startsWith(p)\<close>, \<open>s.endsWith(p)\<close> and \<open>s.includes(p)\<close>.\<close>

definition startsWith :: "string \<Rightarrow> string \<Rightarrow> bool" where
  "startsWith s p = prefix p s"

definition endsWith :: "string \<Rightarrow> string \<Rightarrow> bool" where
  "endsWith s p = suffix p s"

definition str_includes :: "string \<Rightarrow> string \<Rightarrow> bool" where
  "str_includes s p = sublist p s"

text \<open>
  Lower case of one code unit, for the ASCII letters: case-insensitive matching, both
  of the regular expressions used here (whose letters are ASCII) and of attribute
  selectors with the \<open>i\<close> flag, only identifies \<open>A\<close>..\<open>Z\<close> with \<open>a\<close>..\<open>z\<close>.
\<close>

definition lower_char :: "char \<Rightarrow> char" where
  "lower_char c =
     (if 65 \<le> (of_char c :: nat) \<and> (of_char c :: nat) \<le> 90
      then char_of ((of_char c :: nat) + 32) else c)"

definition lower :: "string \<Rightarrow> string" where
  "lower s = map lower_char s"

text \<open>\<open>s.split("\n")\<close>: always at least one piece.\<close>

fun split_lines :: "string \<Rightarrow> string list" where
  "split_lines [] = [[]]"
| "split_lines (c # cs) =
     (if c = LF then [] # split_lines cs
      else (case split_lines cs of l # ls \<Rightarrow> (c # l) # ls | [] \<Rightarrow> [[c]]))"

text \<open>\<open>String(n)\<close> for a non-negative integer: its decimal digits.\<close>

fun digits :: "nat \<Rightarrow> string" where
  "digits n = (if n < 10 then [char_of (48 + n)] else digits (n div 10) @ [char_of (48 + n mod 10)])"

declare digits.simps [simp del]

text \<open>\<open>s.replace(/\s+/g, " ")\<close>: every maximal run of white space becomes one space.\<close>

function collapse_spaces :: "string \<Rightarrow> string" where
  "collapse_spaces [] = []"
| "collapse_spaces (c # cs) =
     (if is_space c then SP # collapse_spaces (dropWhile is_space cs)
      else c # collapse_spaces cs)"
  by pat_completeness auto
termination
  by (relation "measure length") (auto simp: less_Suc_eq_le length_dropWhile_le)

text \<open>
  \<open>s.replace(/\s+\n/g, "\n")\<close>. Line feed is itself white space, so at a white-space
  character the greedy \<open>\s+\<close> takes the whole run of white space and backtracks to the
  last line feed of the run that is not its first character. The match, from the start
  of the run through that line feed, becomes one line feed, and the scan resumes
  behind it. With no such line feed there is no match at this position.
\<close>

function strip_space_before_nl :: "string \<Rightarrow> string" where
  "strip_space_before_nl [] = []"
| "strip_space_before_nl (c # cs) =
     (if is_space c \<and> LF \<in> set (takeWhile is_space cs)
      then LF # strip_space_before_nl
             (rev (takeWhile (\<lambda>x. x \<noteq> LF) (rev (takeWhile is_space cs))) @ dropWhile is_space cs)
      else c # strip_space_before_nl cs)"
  by pat_completeness auto
termination
proof (relation "measure length")
  fix c :: char and cs :: string
  have "length (rev (takeWhile (\<lambda>x. x \<noteq> LF) (rev (takeWhile is_space cs)))) \<le>
        length (takeWhile is_space cs)"
    using length_takeWhile_le[of "\<lambda>x. x \<noteq> LF" "rev (takeWhile is_space cs)"] by simp
  moreover have "length (takeWhile is_space cs) + length (dropWhile is_space cs) = length cs"
    by (metis length_append takeWhile_dropWhile_id)
  ultimately show
    "(rev (takeWhile (\<lambda>x. x \<noteq> LF) (rev (takeWhile is_space cs))) @ dropWhile is_space cs, c # cs)
       \<in> measure length"
    by simp
qed auto

section \<open>The document tree\<close>

text \<open>
  A node is an element with its tag name in lower case (\<open>tagName.toLowerCase()\<close>), its
  attributes and its child nodes, or a text node with its data, or any other node
  (a comment, say). Trees are values, so the deep copy \<open>cloneNode(true)\<close> is the tree itself.
\<close>

datatype node =
    Element string "(string \<times> string) list" "node list"
  | Text string
  | Other

definition cloneNode :: "node \<Rightarrow> node" where
  "cloneNode n = n"

fun is_element :: "node \<Rightarrow> bool" where
  "is_element (Element t as ks) = True"
| "is_element n = False"

text \<open>\<open>(node.tagName || "").toLowerCase()\<close>: only an element has a tag name.\<close>

fun tagName :: "node \<Rightarrow> string" where
  "tagName (Element t as ks) = t"
| "tagName n = []"

fun childNodes :: "node \<Rightarrow> node list" where
  "childNodes (Element t as ks) = ks"
| "childNodes n = []"

text \<open>\<open>el.getAttribute(name)\<close>; \<open>None\<close> is \<open>null\<close>.\<close>

fun getAttribute :: "node \<Rightarrow> string \<Rightarrow> string option" where
  "getAttribute (Element t as ks) name = map_of as name"
| "getAttribute n name = None"

text \<open>\<open>x || ""\<close> for a string or \<open>null\<close>: the empty string is falsy too.\<close>

definition or_empty :: "string option \<Rightarrow> string" where
  "or_empty x = (case x of None \<Rightarrow> [] | Some s \<Rightarrow> s)"

text \<open>\<open>a || b\<close> for strings or \<open>null\<close>.\<close>

definition or_else :: "string option \<Rightarrow> string option \<Rightarrow> string option" where
  "or_else a b = (case a of None \<Rightarrow> b | Some s \<Rightarrow> if s = [] then b else Some s)"

text \<open>\<open>if (x)\<close> for a string or \<open>null\<close>.\<close>

definition truthy_content :: "string option \<Rightarrow> bool" where
  "truthy_content x \<longleftrightarrow> (case x of None \<Rightarrow> False | Some s \<Rightarrow> s \<noteq> [])"

text \<open>\<open>el.className\<close>: the \<open>class\<close> attribute, or the empty string.\<close>

definition className :: "node \<Rightarrow> string" where
  "className n = or_empty (getAttribute n ''class'')"

text \<open>The tokens of a class attribute: split at ASCII white space.\<close>

definition is_ascii_space :: "char \<Rightarrow> bool" where
  "is_ascii_space c \<longleftrightarrow> c = TAB \<or> c = LF \<or> c = CHR 0x0C \<or> c = CR \<or> c = SP"

function tokens :: "string \<Rightarrow> string list" where
  "tokens [] = []"
| "tokens (c # cs) =
     (if is_ascii_space c then tokens cs
      else (c # takeWhile (\<lambda>x. \<not> is_ascii_space x) cs)
             # tokens (dropWhile (\<lambda>x. \<not> is_ascii_space x) cs))"
  by pat_completeness auto
termination
  by (relation "measure length") (auto simp: less_Suc_eq_le length_dropWhile_le)

text \<open>\<open>el.classList.contains(name)\<close>.\<close>

definition classList_contains :: "node \<Rightarrow> string \<Rightarrow> bool" where
  "classList_contains n name \<longleftrightarrow> name \<in> set (tokens (className n))"

text \<open>\<open>el.textContent\<close> of an element: the data of the text nodes below it, in order.\<close>

fun textContent :: "node \<Rightarrow> string" where
  "textContent (Element t as ks) = concat (map textContent ks)"
| "textContent (Text s) = s"
| "textContent Other = []"

subsection \<open>Selectors\<close>

text \<open>
  The simple selectors the program uses: a type selector, a class, \<open>[a]\<close>, \<open>[a="v"]\<close>,
  \<open>[a*="v" i]\<close>, \<open>[type^="v"]\<close> (HTML compares the value of \<open>type\<close> without regard to
  ASCII case), and a compound of two. A selector list \<open>s1, s2, ...\<close> is a list.
\<close>

datatype sel =
    Tag string
  | Class string
  | AttrPresent string
  | AttrEq string string
  | AttrContainsCI string string
  | AttrPrefixCI string string
  | Both sel sel

fun matches :: "sel \<Rightarrow> node \<Rightarrow> bool" where
  "matches (Tag t) n = (is_element n \<and> tagName n = t)"
| "matches (Class c) n = (is_element n \<and> classList_contains n c)"
| "matches (AttrPresent a) n = (getAttribute n a \<noteq> None)"
| "matches (AttrEq a v) n = (getAttribute n a = Some v)"
| "matches (AttrContainsCI a v) n =
     (case getAttribute n a of None \<Rightarrow> False | Some x \<Rightarrow> v \<noteq> [] \<and> str_includes (lower x) (lower v))"
| "matches (AttrPrefixCI a v) n =
     (case getAttribute n a of None \<Rightarrow> False | Some x \<Rightarrow> v \<noteq> [] \<and> startsWith (lower x) (lower v))"
| "matches (Both s1 s2) n = (matches s1 n \<and> matches s2 n)"

definition matches_any :: "sel list \<Rightarrow> node \<Rightarrow> bool" where
  "matches_any sels n = (\<exists>s \<in> set sels. matches s n)"

text \<open>
  An element handle is the position of the node below the root the search started from
  (the child indices on the way down) together with the node found there. Two handles
  are the same element (\<open>===\<close>) when their positions are equal.
\<close>

type_synonym elem = "nat list \<times> node"

text \<open>The nodes of a subtree in document order, each with its position.\<close>

fun subtree :: "nat list \<Rightarrow> node \<Rightarrow> elem list"
  and subtrees :: "nat list \<Rightarrow> nat \<Rightarrow> node list \<Rightarrow> elem list" where
  "subtree p (Element t as ks) = (p, Element t as ks) # subtrees p 0 ks"
| "subtree p (Text s) = [(p, Text s)]"
| "subtree p Other = [(p, Other)]"
| "subtrees p i [] = []"
| "subtrees p i (k # ks) = subtree (p @ [i]) k @ subtrees p (Suc i) ks"

text \<open>
  \<open>el.querySelectorAll(sels)\<close>: the elements strictly below \<open>el\<close> that match, in
  document order; \<open>el.querySelector(sels)\<close> is the first of them, or \<open>null\<close>.
\<close>

definition querySelectorAll :: "elem \<Rightarrow> sel list \<Rightarrow> elem list" where
  "querySelectorAll el sels =
     filter (\<lambda>e. matches_any sels (snd e)) (subtrees (fst el) 0 (childNodes (snd el)))"

definition querySelector :: "elem \<Rightarrow> sel list \<Rightarrow> elem option" where
  "querySelector el sels =
     (case querySelectorAll el sels of [] \<Rightarrow> None | e # es \<Rightarrow> Some e)"

section \<open>The Markdown renderer\<close>

text \<open>
  What the renderer takes from the browser: the \<open>URL\<close> constructor followed by
  \<open>toString()\<close> (it throws a \<open>TypeError\<close> on a malformed URL), the address of the
  page, and the \<open>display\<close> property of an element's inline style, computed by the
  browser from the element's attributes.
\<close>

record browser =
  new_URL :: "string \<Rightarrow> string \<Rightarrow> exn + string"
  location_href :: string
  style_display :: "(string \<times> string) list \<Rightarrow> string"

text \<open>
  The context threaded through the conversion. The top-level context has no
  \<open>listOrdered\<close> and no \<open>listIndex\<close>; the first is then falsy and the second is not read,
  since \<open>convertList\<close> sets both before \<open>convertListItem\<close> reads them.
\<close>

record ctx =
  listDepth :: nat
  inBlockquote :: bool
  listOrdered :: bool
  listIndex :: nat

definition escapeText :: "string \<Rightarrow> string" where
  "escapeText text = map (\<lambda>c. if c = NBSP then SP else c) text"

definition normalizeCode :: "string \<Rightarrow> string" where
  "normalizeCode code = rev (dropWhile (\<lambda>c. c = LF) (rev (replace_cr (replace_crlf code))))"

definition toAbsoluteUrl :: "browser \<Rightarrow> string \<Rightarrow> string" where
  "toAbsoluteUrl B href =
     (case new_URL B href (location_href B) of Inr url \<Rightarrow> url | Inl e \<Rightarrow> href)"

text \<open>
  \<open>String(value || "").match(/language-([a-z0-9_+-]+)/i)\<close>, first group or the empty
  string: the leftmost place where \<open>language-\<close> is followed by at least one character of
  the class, and the longest run of such characters there.
\<close>

definition is_lang_char :: "char \<Rightarrow> bool" where
  "is_lang_char c \<longleftrightarrow>
     (let n = (of_char (lower_char c) :: nat)
      in (97 \<le> n \<and> n \<le> 122) \<or> (48 \<le> n \<and> n \<le> 57) \<or> c = CHR ''_'' \<or> c = CHR ''+'' \<or> c = CHR ''-'')"

fun fromClass :: "string \<Rightarrow> string" where
  "fromClass [] = []"
| "fromClass (c # cs) =
     (if lower (take 9 (c # cs)) = ''language-'' \<and> takeWhile is_lang_char (drop 9 (c # cs)) \<noteq> []
      then takeWhile is_lang_char (drop 9 (c # cs))
      else fromClass cs)"

text \<open>\<open>a || b\<close> for two strings.\<close>

definition str_or :: "string \<Rightarrow> string \<Rightarrow> string" where
  "str_or a b = (if a = [] then b else a)"

definition detectLanguage :: "elem \<Rightarrow> elem option \<Rightarrow> string" where
  "detectLanguage preEl codeEl =
     trim
       (str_or (fromClass (case codeEl of None \<Rightarrow> [] | Some c \<Rightarrow> className (snd c)))
         (str_or (fromClass (className (snd preEl)))
           (or_empty
              (or_else (case codeEl of None \<Rightarrow> None | Some c \<Rightarrow> getAttribute (snd c) ''data-language'')
                 (getAttribute (snd preEl) ''data-language'')))))"

definition extractLatex :: "elem \<Rightarrow> string option" where
  "extractLatex el =
     (let dataMath = or_else (getAttribute (snd el) ''data-math'') (getAttribute (snd el) ''data-tex'')
      in if truthy_content dataMath then dataMath
         else
           (case (case querySelector el [Both (Tag ''annotation'') (AttrEq ''encoding'' ''application/x-tex'')] of
                    None \<Rightarrow> None
                  | Some annotation \<Rightarrow>
                      if textContent (snd annotation) \<noteq> [] then Some (textContent (snd annotation)) else None) of
              Some tex \<Rightarrow> Some tex
            | None \<Rightarrow>
               (let dataTex = or_else (getAttribute (snd el) ''data-tex'')
                                (or_else (getAttribute (snd el) ''alt'') (getAttribute (snd el) ''aria-label''))
                in if truthy_content dataTex \<and>
                      (str_includes (or_empty dataTex) [CHR 0x5C] \<or> str_includes (or_empty dataTex) ''='')
                   then dataTex
                   else
                     (case querySelector el [Both (Tag ''script'') (AttrPrefixCI ''type'' ''math/tex'')] of
                        None \<Rightarrow> None
                      | Some script \<Rightarrow>
                          if textContent (snd script) \<noteq> [] then Some (textContent (snd script)) else None))))"

definition isBlockLike :: "string \<Rightarrow> bool" where
  "isBlockLike t \<longleftrightarrow>
     t = ''div'' \<or> t = ''section'' \<or> t = ''article'' \<or> t = ''main'' \<or> t = ''header'' \<or>
     t = ''footer'' \<or> t = ''figure'' \<or> t = ''figcaption''"

definition is_math_element :: "node \<Rightarrow> bool" where
  "is_math_element el \<longleftrightarrow>
     tagName el = ''math'' \<or> classList_contains el ''katex'' \<or> classList_contains el ''mjx-container'' \<or>
     classList_contains el ''MathJax'' \<or> classList_contains el ''math-inline'' \<or>
     classList_contains el ''math-block''"

definition is_list_element :: "node \<Rightarrow> bool" where
  "is_list_element n \<longleftrightarrow> is_element n \<and> (tagName n = ''ul'' \<or> tagName n = ''ol'')"

definition is_li :: "node \<Rightarrow> bool" where
  "is_li n \<longleftrightarrow> is_element n \<and> tagName n = ''li''"

text \<open>The lines of a block quote: \<open>inner.split("\n").map((l) => (l ? `> ${l}` : ">"))\<close>.\<close>

definition quote_line :: "string \<Rightarrow> string" where
  "quote_line l = (if l = [] then ''>'' else ''> '' @ l)"

text \<open>
  The cascade of tests on the tag name at the head of \<open>convertNode\<close>, in the order of the
  source; \<open>Generic\<close> is the final part for \<open>div\<close>, \<open>span\<close> and every other element.
\<close>

datatype kind =
    Br | Heading nat | Paragraph | Hr | Blockquote | Pre | Code | Link | Img | Strong | Em
  | ListKind | Li | Generic

definition kind_of :: "string \<Rightarrow> kind" where
  "kind_of t =
     (if t = ''br'' then Br
      else if t = ''h1'' then Heading 1 else if t = ''h2'' then Heading 2
      else if t = ''h3'' then Heading 3 else if t = ''h4'' then Heading 4
      else if t = ''h5'' then Heading 5 else if t = ''h6'' then Heading 6
      else if t = ''p'' then Paragraph
      else if t = ''hr'' then Hr
      else if t = ''blockquote'' then Blockquote
      else if t = ''pre'' then Pre
      else if t = ''code'' then Code
      else if t = ''a'' then Link
      else if t = ''img'' then Img
      else if t = ''strong'' \<or> t = ''b'' then Strong
      else if t = ''em'' \<or> t = ''i'' then Em
      else if t = ''ul'' \<or> t = ''ol'' then ListKind
      else if t = ''li'' then Li
      else Generic)"

text \<open>The branches of \<open>convertNode\<close> that do not convert child nodes.\<close>

definition convertPre :: "node \<Rightarrow> string" where
  "convertPre preNode =
     (let el = ([], preNode);
          codeEl = querySelector el [Tag ''code''];
          lang = detectLanguage el codeEl;
          code = (case codeEl of Some ce \<Rightarrow> textContent (snd ce) | None \<Rightarrow> textContent (snd el));
          normalized = normalizeCode code
      in if trim normalized = [] then []
         else (let fence = makeFence normalized
               in [LF] @ fence @ lang @ [LF] @ normalized @ [LF] @ fence @ [LF, LF]))"

definition convertInlineCode :: "node \<Rightarrow> string" where
  "convertInlineCode el =
     (let text = trim (collapse_spaces (textContent el))
      in if text = [] then []
         else (let fence = makeInlineFence text in fence @ text @ fence))"

definition convertImg :: "browser \<Rightarrow> node \<Rightarrow> string" where
  "convertImg B el =
     (let src = or_empty (getAttribute el ''src'')
      in if src = [] \<or> startsWith src ''data:'' then []
         else (let alt = trim (case or_else (getAttribute el ''alt'') (Some ''image'') of
                                 Some a \<Rightarrow> a | None \<Rightarrow> [])
               in ''!['' @ alt @ '']('' @ toAbsoluteUrl B src @ '')''))"

text \<open>The link branch, given the converted children.\<close>

definition convertLink :: "browser \<Rightarrow> node \<Rightarrow> string \<Rightarrow> string" where
  "convertLink B el inner =
     (let href = or_empty (getAttribute el ''href'');
          text = str_or (trim (cleanupMarkdownInline inner)) href
      in if href = [] then text
         else if startsWith href ''javascript:'' then text
         else ''['' @ text @ '']('' @ toAbsoluteUrl B href @ '')'')"

text \<open>The final part of \<open>convertNode\<close>, given the converted children \<open>combined\<close>.\<close>

definition convertGeneric :: "browser \<Rightarrow> string \<Rightarrow> (string \<times> string) list \<Rightarrow> node list \<Rightarrow> string \<Rightarrow> string" where
  "convertGeneric B t as ks combined =
     (if isBlockLike t then
        (let trimmed = trim (cleanupMarkdown combined)
         in if trimmed = [] then [] else trimmed @ [LF, LF])
      else if is_math_element (Element t as ks) then
        (let latex = extractLatex ([], Element t as ks)
         in if truthy_content latex then
              (let isBlock =
                     (classList_contains (Element t as ks) ''block-math'' \<or>
                      classList_contains (Element t as ks) ''math-block'' \<or>
                      style_display B as = ''block'' \<or>
                      t = ''div'' \<or>
                      getAttribute (Element t as ks) ''display'' = Some ''block'');
                   cleanTex = trim (or_empty latex)
               in if isBlock then [LF] @ ''$$'' @ [LF] @ cleanTex @ [LF] @ ''$$'' @ [LF, LF]
                  else ''$'' @ cleanTex @ ''$'')
            else combined)
      else combined)"

text \<open>
  The conversion. \<open>convertListItems\<close> is the \<open>for\<close> loop of \<open>convertList\<close> with its counter
  \<open>index\<close>. The loop of \<open>convertListItem\<close> over the child nodes fills two arrays, and the
  nested lists are rendered after it: \<open>convertItemParts\<close> is the array \<open>childParts\<close> and
  \<open>convertNestedLists\<close> the array \<open>nestedMdParts\<close>.
\<close>

fun convertNode :: "browser \<Rightarrow> node \<Rightarrow> ctx \<Rightarrow> string"
  and convertChildren :: "browser \<Rightarrow> node list \<Rightarrow> ctx \<Rightarrow> string"
  and convertList :: "browser \<Rightarrow> node \<Rightarrow> ctx \<Rightarrow> string"
  and convertListItems :: "browser \<Rightarrow> node list \<Rightarrow> ctx \<Rightarrow> bool \<Rightarrow> nat \<Rightarrow> string list"
  and convertListItem :: "browser \<Rightarrow> node \<Rightarrow> ctx \<Rightarrow> string"
  and convertItemParts :: "browser \<Rightarrow> node list \<Rightarrow> ctx \<Rightarrow> string list"
  and convertNestedLists :: "browser \<Rightarrow> node list \<Rightarrow> ctx \<Rightarrow> string list"
where
  "convertNode B (Text s) c = escapeText s"
| "convertNode B Other c = []"
| "convertNode B (Element t as ks) c =
     (case kind_of t of
        Br \<Rightarrow> [LF]
      | Heading level \<Rightarrow>
          (let text = trim (cleanupMarkdownInline (convertChildren B ks c))
           in if text = [] then []
              else [LF] @ replicate level (CHR ''#'') @ '' '' @ text @ [LF, LF])
      | Paragraph \<Rightarrow>
          (let text = trim (cleanupMarkdownInline (convertChildren B ks c))
           in if text = [] then [] else text @ [LF, LF])
      | Hr \<Rightarrow> [LF] @ ''---'' @ [LF, LF]
      | Blockquote \<Rightarrow>
          (let inner = trim (cleanupMarkdown (convertChildren B ks (c\<lparr>inBlockquote := True\<rparr>)))
           in if inner = [] then []
              else [LF] @ join [LF] (map quote_line (split_lines inner)) @ [LF, LF])
      | Pre \<Rightarrow> convertPre (Element t as ks)
      | Code \<Rightarrow> convertInlineCode (Element t as ks)
      | Link \<Rightarrow> convertLink B (Element t as ks) (convertChildren B ks c)
      | Img \<Rightarrow> convertImg B (Element t as ks)
      | Strong \<Rightarrow>
          (let inner = trim (cleanupMarkdownInline (convertChildren B ks c))
           in if inner = [] then [] else ''**'' @ inner @ ''**'')
      | Em \<Rightarrow>
          (let inner = trim (cleanupMarkdownInline (convertChildren B ks c))
           in if inner = [] then [] else ''*'' @ inner @ ''*'')
      | ListKind \<Rightarrow> convertList B (Element t as ks) c
      | Li \<Rightarrow> convertChildren B ks c
      | Generic \<Rightarrow> convertGeneric B t as ks (convertChildren B ks c))"
| "convertChildren B [] c = []"
| "convertChildren B (k # ks) c = convertNode B k c @ convertChildren B ks c"
| "convertList B (Element t as ks) c =
     (let isOrdered = (t = ''ol'');
          lines = convertListItems B ks c isOrdered 1
      in if lines = [] then [] else join [LF] lines @ [LF, LF])"
| "convertList B (Text s) c = []"
| "convertList B Other c = []"
| "convertListItems B [] c isOrdered index = []"
| "convertListItems B (k # ks) c isOrdered index =
     (if is_li k
      then convertListItem B k (c\<lparr>listDepth := listDepth c + 1, listOrdered := isOrdered, listIndex := index\<rparr>)
             # convertListItems B ks c isOrdered (index + 1)
      else convertListItems B ks c isOrdered index)"
| "convertListItem B (Element t as ks) c =
     (let indent = concat (replicate (listDepth c - 1) ''  '');
          bullet = (if listOrdered c then digits (listIndex c) @ ''. '' else ''- '');
          text = trim (strip_space_before_nl (cleanupMarkdownInline (concat (convertItemParts B ks c))));
          headLine = trimEnd (indent @ bullet @ text);
          nestedMd = join [LF] (filter (\<lambda>s. s \<noteq> []) (convertNestedLists B ks c))
      in if nestedMd = [] then headLine else headLine @ [LF] @ nestedMd)"
| "convertListItem B (Text s) c = []"
| "convertListItem B Other c = []"
| "convertItemParts B [] c = []"
| "convertItemParts B (k # ks) c =
     (if is_list_element k then convertItemParts B ks c
      else convertNode B k c # convertItemParts B ks c)"
| "convertNestedLists B [] c = []"
| "convertNestedLists B (k # ks) c =
     (if is_list_element k then trimEnd (convertList B k c) # convertNestedLists B ks c
      else convertNestedLists B ks c)"

text \<open>
  The pre-pass \<open>cleanup\<close>. \<open>prune P\<close> removes, with their subtrees, the nodes below the
  root that satisfy \<open>P\<close>: what \<open>querySelectorAll(sel).forEach((el) => el.remove())\<close> does for
  a selector that looks at the element alone.
\<close>

fun prune :: "(node \<Rightarrow> bool) \<Rightarrow> node \<Rightarrow> node" where
  "prune P (Element t as ks) = Element t as (map (prune P) (filter (\<lambda>k. \<not> P k) ks))"
| "prune P (Text s) = Text s"
| "prune P Other = Other"

definition removeSelectors :: "sel list" where
  "removeSelectors =
     [Tag ''button'', Tag ''svg'', Tag ''mat-icon'', Tag ''style'', Tag ''textarea'', Tag ''input'',
      AttrEq ''role'' ''button'', Class ''feedback-container'', Class ''edit-button'',
      Class ''speech_icon'']"

text \<open>\<open>el.type.includes("math") || el.type.includes("tex")\<close> for a \<open>script\<close> element.\<close>

definition is_math_script_type :: "node \<Rightarrow> bool" where
  "is_math_script_type el \<longleftrightarrow>
     str_includes (or_empty (getAttribute el ''type'')) ''math'' \<or>
     str_includes (or_empty (getAttribute el ''type'')) ''tex''"

definition cleanup :: "node \<Rightarrow> node" where
  "cleanup rootEl =
     prune (\<lambda>el. matches (Tag ''script'') el \<and> \<not> is_math_script_type el)
       (fold (\<lambda>sel r. prune (\<lambda>el. matches sel el \<and> \<not> (tagName el = ''script'' \<and> is_math_script_type el)) r)
          removeSelectors rootEl)"

definition htmlToMarkdown :: "browser \<Rightarrow> node \<Rightarrow> string" where
  "htmlToMarkdown B element =
     convertChildren B (childNodes (cleanup (cloneNode element)))
       \<lparr> listDepth = 0, inBlockquote = False, listOrdered = False, listIndex = 0 \<rparr>"

section \<open>Collecting the conversation turns\<close>

definition userSelectors :: "sel list" where
  "userSelectors =
     [Tag ''user-query'', AttrEq ''data-test-id'' ''user-query'',
      AttrEq ''data-message-role'' ''user'', AttrEq ''data-message-author'' ''user'']"

definition modelSelectors :: "sel list" where
  "modelSelectors =
     [Tag ''model-response'', AttrEq ''data-test-id'' ''model-response'',
      AttrEq ''data-message-role'' ''assistant'', AttrEq ''data-message-author'' ''assistant'']"

definition turnSelectors :: "sel list" where
  "turnSelectors =
     [AttrContainsCI ''data-test-id'' ''turn'', AttrContainsCI ''data-testid'' ''turn'',
      AttrEq ''role'' ''listitem'']"

text \<open>\<open>a.contains(b)\<close>: \<open>b\<close> is \<open>a\<close> itself or lies below \<open>a\<close>.\<close>

definition contains :: "elem \<Rightarrow> elem \<Rightarrow> bool" where
  "contains a b = prefix (fst a) (fst b)"

text \<open>
  Document order of two positions: an ancestor comes before its descendants, and
  otherwise the first differing child index decides.
\<close>

fun precedes :: "nat list \<Rightarrow> nat list \<Rightarrow> bool" where
  "precedes [] [] = False"
| "precedes [] (y # ys) = True"
| "precedes (x # xs) [] = False"
| "precedes (x # xs) (y # ys) = (x < y \<or> (x = y \<and> precedes xs ys))"

text \<open>
  \<open>a.compareDocumentPosition(b)\<close> for two nodes of one tree, as a bit mask:
  \<open>PRECEDING = 2\<close>, \<open>FOLLOWING = 4\<close>, \<open>CONTAINS = 8\<close>, \<open>CONTAINED_BY = 16\<close>.
\<close>

definition compareDocumentPosition :: "elem \<Rightarrow> elem \<Rightarrow> nat" where
  "compareDocumentPosition a b =
     (if fst a = fst b then 0
      else if strict_prefix (fst a) (fst b) then 16 + 4
      else if strict_prefix (fst b) (fst a) then 8 + 2
      else if precedes (fst a) (fst b) then 4
      else 2)"

definition compareDomOrder :: "elem \<Rightarrow> elem \<Rightarrow> int" where
  "compareDomOrder a b =
     (if fst a = fst b then 0
      else (let pos = compareDocumentPosition a b
            in if and pos 4 \<noteq> 0 then - 1
               else if and pos 2 \<noteq> 0 then 1
               else 0))"

text \<open>
  \<open>array.sort(cmp)\<close>: a stable sort. Insertion sort stands for it; each element goes
  in front of the first one it compares below.
\<close>

fun insert_by :: "('a \<Rightarrow> 'a \<Rightarrow> int) \<Rightarrow> 'a \<Rightarrow> 'a list \<Rightarrow> 'a list" where
  "insert_by cmp x [] = [x]"
| "insert_by cmp x (y # ys) = (if cmp x y < 0 then x # y # ys else y # insert_by cmp x ys)"

definition sort_by :: "('a \<Rightarrow> 'a \<Rightarrow> int) \<Rightarrow> 'a list \<Rightarrow> 'a list" where
  "sort_by cmp xs = foldl (\<lambda>acc x. insert_by cmp x acc) [] xs"

text \<open>The loop of \<open>uniqueElements\<close> with its array \<open>out\<close> and its set \<open>seen\<close>.\<close>

fun uniqueElements_loop :: "elem list \<Rightarrow> elem list \<Rightarrow> nat list set \<Rightarrow> elem list" where
  "uniqueElements_loop [] out seen = out"
| "uniqueElements_loop (el # els) out seen =
     (if fst el \<in> seen then uniqueElements_loop els out seen
      else uniqueElements_loop els (out @ [el]) (insert (fst el) seen))"

definition uniqueElements :: "elem list \<Rightarrow> elem list" where
  "uniqueElements elements = uniqueElements_loop elements [] {}"

text \<open>The loop of \<open>removeContainedElements\<close> with its array \<open>out\<close>.\<close>

fun removeContainedElements_loop :: "elem list \<Rightarrow> elem list \<Rightarrow> elem list" where
  "removeContainedElements_loop [] out = out"
| "removeContainedElements_loop (el # els) out =
     (if list_ex (\<lambda>prev. contains prev el) out then removeContainedElements_loop els out
      else removeContainedElements_loop els (out @ [el]))"

definition removeContainedElements :: "elem list \<Rightarrow> elem list" where
  "removeContainedElements sortedElements = removeContainedElements_loop sortedElements [] "

text \<open>
  The candidates of \<open>collectConversationNodes\<close>: the elements matching a role selector,
  or, when there is none, the turn-like elements with some text.
\<close>

definition turnCandidates :: "node \<Rightarrow> elem list" where
  "turnCandidates searchRoot =
     (let candidates = querySelectorAll ([], searchRoot) (userSelectors @ modelSelectors)
      in if candidates = []
         then filter (\<lambda>el. 0 < length (trim (textContent (snd el))))
                (querySelectorAll ([], searchRoot) turnSelectors)
         else candidates)"

definition collectConversationNodes :: "node \<Rightarrow> elem list" where
  "collectConversationNodes searchRoot =
     removeContainedElements (sort_by compareDomOrder (uniqueElements (turnCandidates searchRoot)))"

text \<open>\<open>/user/i.test(String(node.className || ""))\<close>.\<close>

definition getSpeaker :: "elem \<Rightarrow> string" where
  "getSpeaker node =
     (if tagName (snd node) = ''user-query'' \<or> matches_any userSelectors (snd node) then ''User''
      else if tagName (snd node) = ''model-response'' \<or> matches_any modelSelectors (snd node) then ''Gemini''
      else if str_includes (lower (className (snd node))) ''user'' then ''User''
      else ''Gemini'')"

definition contentSelectors :: "sel list" where
  "contentSelectors =
     [AttrPresent ''data-message-text'', AttrContainsCI ''data-test-id'' ''message'',
      Tag ''message-content'', Class ''message-content'', Class ''markdown'', Class ''content'',
      Tag ''article'', Tag ''section'']"

fun getBestContentNode_loop :: "elem \<Rightarrow> sel list \<Rightarrow> elem" where
  "getBestContentNode_loop node [] = node"
| "getBestContentNode_loop node (s # ss) =
     (case querySelector node [s] of
        Some el \<Rightarrow>
          if 0 < length (trim (textContent (snd el))) then el
          else getBestContentNode_loop node ss
      | None \<Rightarrow> getBestContentNode_loop node ss)"

definition getBestContentNode :: "elem \<Rightarrow> elem" where
  "getBestContentNode node = getBestContentNode_loop node contentSelectors"

text \<open>
  \<open>raw.replace(/^Gemini\s*-\s*/i, "")\<close>: the word, any white space, a hyphen and any
  white space are removed from the start; without the hyphen nothing is removed.
\<close>

definition strip_gemini_prefix :: "string \<Rightarrow> string" where
  "strip_gemini_prefix raw =
     (if lower (take 6 raw) = ''gemini''
      then (case dropWhile is_space (drop 6 raw) of
              [] \<Rightarrow> raw
            | c # rest \<Rightarrow> if c = CHR ''-'' then dropWhile is_space rest else raw)
      else raw)"

definition getThreadTitle :: "string \<Rightarrow> string" where
  "getThreadTitle document_title =
     (let raw = trim document_title;
          cleaned = trim (strip_gemini_prefix raw)
      in if cleaned = [] then ''Gemini'' else cleaned)"

section \<open>The page automation\<close>

text \<open>
  The automation drives the live page. Its elements are handles into that page. The
  selector strings and log messages of the source are named by constructors.
\<close>

type_synonym handle = nat

datatype ui_sel = CloseSidebarButton | MonacoScrollable | MonacoViewLine

datatype log_msg =
    RestoreFailed exn
  | FileListNotVisible
  | FailedToClick string
  | FailedToRestoreList
  | ErrorProcessing string exn
  | ErrorExtracting exn

text \<open>The conditions handed to \<open>waitFor\<close> whose result the caller does not use.\<close>

datatype cond =
    ElementGone ui_sel
  | ElementPresent ui_sel
  | CodeTabSelected handle
  | CanvasContentPresent

text \<open>
  The snapshot taken by \<open>captureUiState\<close>. A field that can be \<open>null\<close> is an option; so
  is \<open>windowScroll\<close>, which \<open>restoreUiState\<close> tests before use.
\<close>

record snapshot =
  sidebarWasOpen :: bool
  activeSidebarTabLabel :: "string option"
  hadMonacoOpen :: bool
  currentCanvasTitle :: "string option"
  windowScroll :: "(int \<times> int) option"
  sidePanelScrollTop :: "int option"
  fileListScrollTop :: "int option"
  monacoScroll :: "(int \<times> int) option"
  immersivePanelOpen :: bool

text \<open>
  The operations on the page that \<open>restoreUiState\<close> and \<open>extractAllCanvasContent\<close> call:
  DOM calls, the helper functions of the source below them in the call graph, and the
  calls of \<open>waitFor\<close>. Each is a parameter: it may return any value, change the page in
  any way, or throw. \<open>console.warn\<close> and \<open>Date.now()\<close> do not throw.
\<close>

record 'w ui =
  captureUiState :: "(snapshot, 'w) prog"
  date_now :: "'w \<Rightarrow> int"
  console_warn :: "log_msg \<Rightarrow> 'w \<Rightarrow> 'w"
  window_scrollTo :: "int \<Rightarrow> int \<Rightarrow> (unit, 'w) prog"
  document_querySelector :: "ui_sel \<Rightarrow> (handle option, 'w) prog"
  click :: "handle \<Rightarrow> (unit, 'w) prog"
  set_scrollTop :: "handle \<Rightarrow> int \<Rightarrow> (unit, 'w) prog"
  set_scrollLeft :: "handle \<Rightarrow> int \<Rightarrow> (unit, 'w) prog"
  find_tab_by_label :: "handle \<Rightarrow> string \<Rightarrow> (handle option, 'w) prog"
  closest_side_panel :: "handle \<Rightarrow> (handle option, 'w) prog"
  waitFor_ignored :: "cond \<Rightarrow> int \<Rightarrow> int \<Rightarrow> (unit, 'w) prog"
  waitFor_content :: "string \<Rightarrow> int \<Rightarrow> int \<Rightarrow> (string option, 'w) prog"
  closeImmersivePanel :: "(bool, 'w) prog"
  ensureSidebarOpen :: "(unit, 'w) prog"
  findSidePanel :: "(handle option, 'w) prog"
  ensureFileListVisible :: "(bool, 'w) prog"
  openFileByTitle :: "string \<Rightarrow> (bool, 'w) prog"
  ensureCodeTabSelected :: "handle \<Rightarrow> (unit, 'w) prog"
  clickBackButton :: "handle \<Rightarrow> (bool, 'w) prog"
  clickFilesTab :: "handle \<Rightarrow> (bool, 'w) prog"
  findCreatedSectionContainer :: "(handle option, 'w) prog"
  getCanvasContent :: "string option \<Rightarrow> (string option, 'w) prog"
  listCreatedFileTitles :: "(string list, 'w) prog"
  getCanvasSidebarItems :: "(nat, 'w) prog"
  tryClickOpenButton :: "(bool, 'w) prog"
  checkForCanvasReference :: "(bool, 'w) prog"

definition warn :: "'w ui \<Rightarrow> log_msg \<Rightarrow> (unit, 'w) prog" where
  "warn U msg = (\<lambda>w. (Inr (), console_warn U msg w))"

text \<open>A statement whose value is dropped.\<close>

definition ignore :: "('a, 'w) prog \<Rightarrow> (unit, 'w) prog" where
  "ignore m = bind m (\<lambda>x. ret ())"

subsection \<open>\<open>restoreUiState\<close>\<close>

text \<open>The branch \<open>if (!state?.sidebarWasOpen) { ...; return; }\<close>.\<close>

definition restore_closed_sidebar :: "'w ui \<Rightarrow> bool \<Rightarrow> (unit, 'w) prog" where
  "restore_closed_sidebar U shouldCloseImmersive =
     bind (document_querySelector U CloseSidebarButton) (\<lambda>closeBtn.
     bind (case closeBtn of
             Some b \<Rightarrow> bind (click U b) (\<lambda>u. waitFor_ignored U (ElementGone CloseSidebarButton) 1500 100)
           | None \<Rightarrow> ret ()) (\<lambda>u.
     if shouldCloseImmersive then ignore (closeImmersivePanel U) else ret ()))"

text \<open>The branch \<open>if (state.hadMonacoOpen && state.currentCanvasTitle)\<close>.\<close>

definition restore_editor :: "'w ui \<Rightarrow> snapshot \<Rightarrow> string \<Rightarrow> handle option \<Rightarrow> (unit, 'w) prog" where
  "restore_editor U st title sidePanel =
     bind (ensureFileListVisible U) (\<lambda>u1.
     bind (openFileByTitle U title) (\<lambda>u2.
     bind (case sidePanel of Some p \<Rightarrow> ensureCodeTabSelected U p | None \<Rightarrow> ret ()) (\<lambda>u3.
     case monacoScroll st of
       Some (sTop, sLeft) \<Rightarrow>
         bind (waitFor_ignored U (ElementPresent MonacoScrollable) 1500 100) (\<lambda>u4.
         bind (document_querySelector U MonacoScrollable) (\<lambda>monacoScrollable.
         case monacoScrollable of
           Some m \<Rightarrow> bind (set_scrollTop U m sTop) (\<lambda>u5. set_scrollLeft U m sLeft)
         | None \<Rightarrow> ret ()))
     | None \<Rightarrow> ret ())))"

text \<open>Its \<open>else\<close> branch.\<close>

definition restore_list :: "'w ui \<Rightarrow> snapshot \<Rightarrow> handle option \<Rightarrow> (unit, 'w) prog" where
  "restore_list U st sidePanel =
     bind (case (sidePanel, activeSidebarTabLabel st) of
             (Some p, Some label) \<Rightarrow>
               if label = [] then ret ()
               else bind (find_tab_by_label U p label) (\<lambda>target.
                    case target of Some t \<Rightarrow> click U t | None \<Rightarrow> ret ())
           | _ \<Rightarrow> ret ()) (\<lambda>u1.
     bind (if \<not> hadMonacoOpen st then
             bind (document_querySelector U MonacoViewLine) (\<lambda>viewLine.
             case (viewLine, sidePanel) of
               (Some v, Some p) \<Rightarrow>
                 bind (clickBackButton U p) (\<lambda>back.
                 bind (if \<not> back then ignore (clickFilesTab U p) else ret ()) (\<lambda>u2.
                 waitFor_ignored U (ElementGone MonacoViewLine) 1500 100))
             | _ \<Rightarrow> ret ())
           else ret ()) (\<lambda>u3.
     case fileListScrollTop st of
       Some sTop \<Rightarrow>
         bind (ensureFileListVisible U) (\<lambda>u4.
         bind (findCreatedSectionContainer U) (\<lambda>container.
         case container of Some c \<Rightarrow> set_scrollTop U c sTop | None \<Rightarrow> ret ()))
     | None \<Rightarrow> ret ()))"

text \<open>What follows the early return, for a snapshot whose side bar was open.\<close>

definition restore_open_sidebar :: "'w ui \<Rightarrow> snapshot \<Rightarrow> bool \<Rightarrow> (unit, 'w) prog" where
  "restore_open_sidebar U st shouldCloseImmersive =
     bind (ensureSidebarOpen U) (\<lambda>u1.
     bind (findSidePanel U) (\<lambda>sidePanel.
     bind (case currentCanvasTitle st of
             Some title \<Rightarrow>
               if hadMonacoOpen st \<and> title \<noteq> [] then restore_editor U st title sidePanel
               else restore_list U st sidePanel
           | None \<Rightarrow> restore_list U st sidePanel) (\<lambda>u2.
     bind (case (sidePanel, sidePanelScrollTop st) of
             (Some p, Some sTop) \<Rightarrow> set_scrollTop U p sTop
           | _ \<Rightarrow> ret ()) (\<lambda>u3.
     if shouldCloseImmersive then ignore (closeImmersivePanel U) else ret ()))))"

text \<open>
  The body of the \<open>try\<close> block. The argument \<open>state\<close> may be \<open>null\<close> or \<open>undefined\<close>
  (\<open>None\<close>): every use of it before the early return is \<open>state?.field\<close>, which is then
  \<open>undefined\<close>, so the early return is taken.
\<close>

definition restore_body :: "'w ui \<Rightarrow> snapshot option \<Rightarrow> (unit, 'w) prog" where
  "restore_body U state =
     (case state of
        None \<Rightarrow> restore_closed_sidebar U True
      | Some st \<Rightarrow>
          bind (case windowScroll st of Some (x, y) \<Rightarrow> window_scrollTo U x y | None \<Rightarrow> ret ()) (\<lambda>u.
          if \<not> sidebarWasOpen st then restore_closed_sidebar U (\<not> immersivePanelOpen st)
          else restore_open_sidebar U st (\<not> immersivePanelOpen st)))"

definition restoreUiState :: "'w ui \<Rightarrow> snapshot option \<Rightarrow> (unit, 'w) prog" where
  "restoreUiState U state = try_catch (restore_body U state) (\<lambda>e. warn U (RestoreFailed e))"

subsection \<open>\<open>extractAllCanvasContent\<close>\<close>

text \<open>
  The local variables of \<open>extractAllCanvasContent\<close> that its loop updates, next to the
  page. They are part of the state, so an exception leaves them as they were when it
  was thrown.
\<close>

record 'w canvas_state =
  page :: 'w
  results :: "string list"
  processedTitles :: "string set"
  everOpenedEditor :: bool

text \<open>A page operation, run on the state.\<close>

definition on_page :: "('a, 'w) prog \<Rightarrow> ('a, 'w canvas_state) prog" where
  "on_page m = (\<lambda>s. case m (page s) of (r, w') \<Rightarrow> (r, s\<lparr>page := w'\<rparr>))"

definition update :: "('w canvas_state \<Rightarrow> 'w canvas_state) \<Rightarrow> (unit, 'w canvas_state) prog" where
  "update f = (\<lambda>s. (Inr (), f s))"

definition MAX_TOTAL_MS :: int where
  "MAX_TOTAL_MS = 45000"

text \<open>
  \<open>content.match(/## Canvas: (.*)\n/)\<close>, first group: at the leftmost place where the
  heading starts and the rest of its line ends in a line feed, that rest. The dot
  matches no line terminator.
\<close>

definition no_line_terminator :: "char \<Rightarrow> bool" where
  "no_line_terminator c \<longleftrightarrow> c \<noteq> LF \<and> c \<noteq> CR"

fun canvas_title_match :: "string \<Rightarrow> string option" where
  "canvas_title_match [] = None"
| "canvas_title_match (c # cs) =
     (if prefix ''## Canvas: '' (c # cs) \<and>
         (case dropWhile no_line_terminator (drop 11 (c # cs)) of [] \<Rightarrow> False | d # rest \<Rightarrow> d = LF)
      then Some (takeWhile no_line_terminator (drop 11 (c # cs)))
      else canvas_title_match cs)"

text \<open>Step 1: whatever is shown already.\<close>

definition read_current :: "'w ui \<Rightarrow> (unit, 'w canvas_state) prog" where
  "read_current U =
     bind (on_page (getCanvasContent U None)) (\<lambda>currentContent.
     if truthy_content currentContent then
       (let content = or_empty currentContent;
            title = (case canvas_title_match content of Some t \<Rightarrow> trim t | None \<Rightarrow> ''Untitled'')
        in update (\<lambda>s. s\<lparr>processedTitles := insert title (processedTitles s),
                           results := results s @ [content]\<rparr>))
     else ret ())"

text \<open>How one round of the \<open>for\<close> loop ends: \<open>break\<close>, or on to the next title.\<close>

datatype flow = Break | Continue

text \<open>
  The part of a round between the click and the poll: find the side panel and wait for
  its code tab.
\<close>

definition select_code_tab :: "'w ui \<Rightarrow> (unit, 'w canvas_state) prog" where
  "select_code_tab U =
     bind (on_page (document_querySelector U CloseSidebarButton)) (\<lambda>closeBtn.
     bind (case closeBtn of Some b \<Rightarrow> on_page (closest_side_panel U b) | None \<Rightarrow> ret None) (\<lambda>sidePanel.
     case sidePanel of
       Some p \<Rightarrow> on_page (waitFor_ignored U (CodeTabSelected p) 1000 200)
     | None \<Rightarrow> ret ()))"

text \<open>The \<open>try\<close> block of one round, for the title \<open>title\<close>.\<close>

definition canvas_round_body :: "'w ui \<Rightarrow> int \<Rightarrow> string \<Rightarrow> (flow, 'w canvas_state) prog" where
  "canvas_round_body U totalStart title =
     bind (on_page (ensureFileListVisible U)) (\<lambda>listReady.
     if \<not> listReady then bind (on_page (warn U FileListNotVisible)) (\<lambda>u. ret Break)
     else (\<lambda>s.
       if title \<in> processedTitles s then ret Continue s
       else
         bind (on_page (openFileByTitle U title)) (\<lambda>clicked.
         if \<not> clicked then bind (on_page (warn U (FailedToClick title))) (\<lambda>u. ret Continue)
         else
           bind (select_code_tab U) (\<lambda>u. (\<lambda>s1.
           (let remainingMs = MAX_TOTAL_MS - (date_now U (page s1) - totalStart)
            in if remainingMs \<le> 0 then ret Break s1
               else
                 bind (on_page (waitFor_content U title (min 8000 remainingMs) 200)) (\<lambda>content.
                 bind (if truthy_content content then
                         bind (update (\<lambda>s2. s2\<lparr>results := results s2 @ [or_empty content],
                                               processedTitles := insert title (processedTitles s2),
                                               everOpenedEditor := True\<rparr>)) (\<lambda>u. ret Continue)
                       else (\<lambda>s2. if \<not> everOpenedEditor s2 then ret Break s2 else ret Continue s2))
                   (\<lambda>fl.
                 case fl of
                   Break \<Rightarrow> ret Break
                 | Continue \<Rightarrow>
                     bind (on_page (ensureFileListVisible U)) (\<lambda>listRestored.
                     if \<not> listRestored then bind (on_page (warn U FailedToRestoreList)) (\<lambda>u. ret Break)
                     else ret Continue))) s1)))) s))"

text \<open>One round: the \<open>try\<close> block with its \<open>catch\<close>, which logs and goes on.\<close>

definition canvas_round :: "'w ui \<Rightarrow> int \<Rightarrow> string \<Rightarrow> (flow, 'w canvas_state) prog" where
  "canvas_round U totalStart title =
     try_catch (canvas_round_body U totalStart title)
       (\<lambda>err. bind (on_page (warn U (ErrorProcessing title err))) (\<lambda>u. ret Continue))"

text \<open>The \<open>for\<close> loop over the titles.\<close>

fun canvas_loop :: "'w ui \<Rightarrow> int \<Rightarrow> string list \<Rightarrow> (unit, 'w canvas_state) prog" where
  "canvas_loop U totalStart [] = ret ()"
| "canvas_loop U totalStart (title # titles) =
     (\<lambda>s. if date_now U (page s) - totalStart > MAX_TOTAL_MS then ret () s
          else bind (canvas_round U totalStart title)
                 (\<lambda>fl. case fl of Break \<Rightarrow> ret () | Continue \<Rightarrow> canvas_loop U totalStart titles) s)"

text \<open>The \<open>else\<close> branch for an empty title list.\<close>

definition canvas_fallback :: "'w ui \<Rightarrow> (unit, 'w canvas_state) prog" where
  "canvas_fallback U =
     bind (on_page (getCanvasSidebarItems U)) (\<lambda>items. (\<lambda>s.
     if results s = [] then
       bind (on_page (tryClickOpenButton U)) (\<lambda>opened.
       if opened then
         bind (on_page (waitFor_ignored U CanvasContentPresent 3000 100)) (\<lambda>u.
         bind (on_page (getCanvasContent U None)) (\<lambda>content.
         if truthy_content content
         then update (\<lambda>s1. s1\<lparr>results := results s1 @ [or_empty content]\<rparr>)
         else ret ()))
       else ret ()) s
     else ret () s))"

text \<open>The inner \<open>try\<close> block.\<close>

definition canvas_steps :: "'w ui \<Rightarrow> int \<Rightarrow> (unit, 'w canvas_state) prog" where
  "canvas_steps U totalStart =
     bind (read_current U) (\<lambda>u1.
     bind (on_page (ensureSidebarOpen U)) (\<lambda>u2.
     bind (on_page (ensureFileListVisible U)) (\<lambda>u3.
     bind (on_page (listCreatedFileTitles U)) (\<lambda>titles.
     if titles \<noteq> [] then
       bind (update (\<lambda>s. s\<lparr>everOpenedEditor := False\<rparr>)) (\<lambda>u4. canvas_loop U totalStart titles)
     else canvas_fallback U))))"

text \<open>The outer \<open>try\<close> block: the inner one with its \<open>catch\<close>, then \<open>return results\<close>.\<close>

definition canvas_try :: "'w ui \<Rightarrow> int \<Rightarrow> (string list, 'w canvas_state) prog" where
  "canvas_try U totalStart =
     bind (try_catch (canvas_steps U totalStart) (\<lambda>e. on_page (warn U (ErrorExtracting e))))
       (\<lambda>u. (\<lambda>s. ret (results s) s))"

definition extractAllCanvasContent :: "'w ui \<Rightarrow> (string list, 'w) prog" where
  "extractAllCanvasContent U =
     bind (captureUiState U) (\<lambda>uiState. (\<lambda>w.
       (let s0 = \<lparr> page = w, results = [], processedTitles = {}, everOpenedEditor = False \<rparr>;
            totalStart = date_now U w
        in case try_finally (canvas_try U totalStart) (on_page (restoreUiState U (Some uiState))) s0 of
             (r, s1) \<Rightarrow> (r, page s1))))"

section \<open>The extraction call\<close>

text \<open>
  What \<open>extractMarkdownFromPage\<close> reads of the page when it starts: the host name, the
  root of the conversation (\<open>document.querySelector("main") || document.body\<close>, or
  \<open>None\<close>), and \<open>document.title\<close>. The last line of the warning block names a tab in
  characters outside Latin-1, so it is a field here.
\<close>

record page_view =
  hostname :: string
  root :: "node option"
  document_title :: string
  auto_open_hint :: string

text \<open>The error descriptors \<open>{ error: ... }\<close>, named by kind.\<close>

datatype extraction_error = NotGeminiPage | NoRoot | NoConversation | Caught exn

text \<open>The lines one turn adds to \<open>output\<close>.\<close>

definition turn_lines :: "browser \<Rightarrow> elem \<Rightarrow> string list" where
  "turn_lines B node =
     (let speaker = getSpeaker node;
          content = getBestContentNode node;
          markdown = trim (htmlToMarkdown B (snd content))
      in if markdown = [] then []
         else [''## '' @ speaker, markdown, [], ''---'', []])"

text \<open>The block \<open>if (includeCanvas) { ... }\<close>, from the lines so far to the lines after it.\<close>

definition canvas_lines :: "'w ui \<Rightarrow> page_view \<Rightarrow> string list \<Rightarrow> (string list, 'w) prog" where
  "canvas_lines U pg output =
     bind (extractAllCanvasContent U) (\<lambda>canvasSections.
     if canvasSections \<noteq> [] then
       ret (output @ concat (map (\<lambda>section. [[], ''---'', [], section]) canvasSections))
     else
       bind (checkForCanvasReference U) (\<lambda>hasCanvasRef.
       if hasCanvasRef then
         ret (output @ [[], ''---'', [], ''> [!WARNING]'', ''> **Canvas content not found.**'',
                        auto_open_hint pg])
       else ret output))"

definition extractMarkdownFromPage ::
  "browser \<Rightarrow> 'w ui \<Rightarrow> page_view \<Rightarrow> bool \<Rightarrow> 'w \<Rightarrow> (extraction_error + string) \<times> 'w" where
  "extractMarkdownFromPage B U pg includeCanvas w =
     (if \<not> endsWith (hostname pg) ''gemini.google.com'' then (Inl NotGeminiPage, w)
      else case root pg of
        None \<Rightarrow> (Inl NoRoot, w)
      | Some r \<Rightarrow>
          (let nodes = collectConversationNodes r
           in if nodes = [] then (Inl NoConversation, w)
              else
                (let title = getThreadTitle (document_title pg);
                     output = [''# '' @ title, []] @ concat (map (turn_lines B) nodes)
                 in if includeCanvas then
                      (case canvas_lines U pg output w of
                         (Inl e, w') \<Rightarrow> (Inl (Caught e), w')
                       | (Inr out, w') \<Rightarrow> (Inr (cleanupMarkdown (join [LF] out)), w'))
                    else (Inr (cleanupMarkdown (join [LF] output)), w))))"

section \<open>Example pages\<close>

text \<open>
  A page that is only a clock: the state is the time in milliseconds, a timer of
  \<open>interval\<close> milliseconds takes exactly that long, and the truthy values are the
  boolean \<open>true\<close>.
\<close>

definition clock_page :: "(bool, int) timing" where
  "clock_page = \<lparr> now = (\<lambda>w. w), setTimeout = (\<lambda>interval w. w + interval), truthy = (\<lambda>v. v) \<rparr>"

text \<open>
  A condition that throws during the first 100 ms, is \<open>false\<close> until 200 ms and \<open>true\<close>
  from then on.
\<close>

definition flaky_condition :: "(bool, int) prog" where
  "flaky_condition = (\<lambda>w. (if w < 100 then Inl (JsError ''detached'') else Inr (200 \<le> w), w))"

text \<open>
  A page for the automation whose state counts the operations performed on it; the clock
  shows that count. The side bar is closed, the file list shows three titles and nothing
  is open. Which titles can be clicked and which show content are parameters.
\<close>

definition demo_snapshot :: snapshot where
  "demo_snapshot =
     \<lparr> sidebarWasOpen = False, activeSidebarTabLabel = None, hadMonacoOpen = False,
       currentCanvasTitle = None, windowScroll = Some (0, 0), sidePanelScrollTop = None,
       fileListScrollTop = None, monacoScroll = None, immersivePanelOpen = False \<rparr>"

definition demo_ui :: "(string \<Rightarrow> exn + bool) \<Rightarrow> (string \<Rightarrow> string option) \<Rightarrow> nat ui" where
  "demo_ui opens content =
     \<lparr> captureUiState = (\<lambda>w. (Inr demo_snapshot, Suc w)),
       date_now = (\<lambda>w. int w),
       console_warn = (\<lambda>msg w. w),
       window_scrollTo = (\<lambda>x y w. (Inr (), Suc w)),
       document_querySelector = (\<lambda>sel w. (Inr None, Suc w)),
       click = (\<lambda>h w. (Inr (), Suc w)),
       set_scrollTop = (\<lambda>h v w. (Inr (), Suc w)),
       set_scrollLeft = (\<lambda>h v w. (Inr (), Suc w)),
       find_tab_by_label = (\<lambda>h l w. (Inr None, Suc w)),
       closest_side_panel = (\<lambda>h w. (Inr None, Suc w)),
       waitFor_ignored = (\<lambda>c t i w. (Inr (), Suc w)),
       waitFor_content = (\<lambda>title t i w. (Inr (content title), Suc w)),
       closeImmersivePanel = (\<lambda>w. (Inr True, Suc w)),
       ensureSidebarOpen = (\<lambda>w. (Inr (), Suc w)),
       findSidePanel = (\<lambda>w. (Inr None, Suc w)),
       ensureFileListVisible = (\<lambda>w. (Inr True, Suc w)),
       openFileByTitle = (\<lambda>title w. (opens title, Suc w)),
       ensureCodeTabSelected = (\<lambda>h w. (Inr (), Suc w)),
       clickBackButton = (\<lambda>h w. (Inr False, Suc w)),
       clickFilesTab = (\<lambda>h w. (Inr False, Suc w)),
       findCreatedSectionContainer = (\<lambda>w. (Inr None, Suc w)),
       getCanvasContent = (\<lambda>fallback w. (Inr None, Suc w)),
       listCreatedFileTitles = (\<lambda>w. (Inr [''a.js'', ''b.js'', ''c.js''], Suc w)),
       getCanvasSidebarItems = (\<lambda>w. (Inr 0, Suc w)),
       tryClickOpenButton = (\<lambda>w. (Inr False, Suc w)),
       checkForCanvasReference = (\<lambda>w. (Inr False, Suc w)) \<rparr>"

definition detached_b :: "string \<Rightarrow> exn + bool" where
  "detached_b title = (if title = ''b.js'' then Inl (JsError ''detached'') else Inr True)"

definition all_open :: "string \<Rightarrow> exn + bool" where
  "all_open title = Inr True"

definition all_content :: "string \<Rightarrow> string option" where
  "all_content title = Some (''## Canvas: '' @ title)"

definition no_b_content :: "string \<Rightarrow> string option" where
  "no_b_content title = (if title = ''b.js'' then None else Some (''## Canvas: '' @ title))"

definition only_c_content :: "string \<Rightarrow> string option" where
  "only_c_content title = (if title = ''c.js'' then Some (''## Canvas: '' @ title) else None)"

definition closed_a :: "string \<Rightarrow> exn + bool" where
  "closed_a title = Inr (title \<noteq> ''a.js'')"

text \<open>
  The state in which \<open>extractAllCanvasContent\<close> starts on such a page at time 0, the
  state in which it enters the loop, and the state after the first title was extracted.
\<close>

definition demo_start :: "nat canvas_state" where
  "demo_start = \<lparr> page = 1, results = [], processedTitles = {}, everOpenedEditor = False \<rparr>"

definition loop_entry :: "nat canvas_state" where
  "loop_entry = \<lparr> page = 5, results = [], processedTitles = {}, everOpenedEditor = False \<rparr>"

definition after_a :: "nat canvas_state" where
  "after_a =
     \<lparr> page = 10, results = [''## Canvas: a.js''], processedTitles = {''a.js''},
       everOpenedEditor = True \<rparr>"


text \<open>
  A conversation root with a user turn matched three times, by its tag and by two
  attributes of nested elements, and one assistant turn.
\<close>

definition inner_span :: node where
  "inner_span = Element ''span'' [(''data-message-author'', ''user'')] [Text ''Hello'']"

definition inner_div :: node where
  "inner_div = Element ''div'' [(''data-message-role'', ''user'')] [inner_span]"

definition nested_turns :: node where
  "nested_turns =
     Element ''main'' []
       [Element ''user-query'' [] [inner_div],
        Element ''model-response'' [] [Element ''p'' [] [Text ''Hi there'']]]"


text \<open>
  A browser whose \<open>URL\<close> constructor rejects every address, and the context of
  \<open>htmlToMarkdown\<close>.
\<close>

definition bare_browser :: browser where
  "bare_browser =
     \<lparr> new_URL = (\<lambda>href base. Inl (JsError ''Invalid URL'')),
       location_href = ''https://gemini.google.com/app'',
       style_display = (\<lambda>as. []) \<rparr>"

definition top_ctx :: ctx where
  "top_ctx = \<lparr> listDepth = 0, inBlockquote = False, listOrdered = False, listIndex = 0 \<rparr>"

text \<open>
  A list of two levels with the tag \<open>t\<close> at both, and a list item that holds nothing
  but a nested list.
\<close>

definition two_level_list :: "string \<Rightarrow> node" where
  "two_level_list t =
     Element t []
       [Element ''li'' [] [Text ''a'', Element t [] [Element ''li'' [] [Text ''b''], Element ''li'' [] [Text ''c'']]],
        Element ''li'' [] [Text ''d'']]"

definition list_only_item :: node where
  "list_only_item = Element ''li'' [] [Element ''ul'' [] [Element ''li'' [] [Text ''x'']]]"


text \<open>
  A page with one user turn and one assistant turn, its two turn elements, and the
  text that follows the title line in its Markdown.
\<close>

definition hello_root :: node where
  "hello_root =
     Element ''main'' []
       [Element ''user-query'' [] [Element ''p'' [] [Text ''Hello'']],
        Element ''model-response'' [] [Element ''div'' [(''class'', ''markdown'')] [Element ''p'' [] [Text ''Hi there'']]]]"

definition hello_page :: page_view where
  "hello_page =
     \<lparr> hostname = ''gemini.google.com'', root = Some hello_root,
       document_title = ''Gemini - Greetings'', auto_open_hint = ''> Auto-open failed.'' \<rparr>"

definition hello_tail :: string where
  "hello_tail =
     [LF, LF] @ ''## User'' @ [LF] @ ''Hello'' @ [LF, LF] @ ''---'' @ [LF, LF] @
     ''## Gemini'' @ [LF] @ ''Hi there'' @ [LF, LF] @ ''---''"

definition no_content :: "string \<Rightarrow> string option" where
  "no_content title = None"

definition hello_user :: elem where
  "hello_user = ([0], Element ''user-query'' [] [Element ''p'' [] [Text ''Hello'']])"

definition hello_model :: elem where
  "hello_model =
     ([1], Element ''model-response'' []
             [Element ''div'' [(''class'', ''markdown'')] [Element ''p'' [] [Text ''Hi there'']]])"

section \<open>Properties of strings used in the proofs\<close>

text \<open>No blank stands immediately before a line feed.\<close>

fun no_blank_nl :: "string \<Rightarrow> bool" where
  "no_blank_nl (c # d # cs) = (\<not> (is_blank c \<and> d = LF) \<and> no_blank_nl (d # cs))"
| "no_blank_nl cs = True"

text \<open>No position starts a run of \<open>k\<close> or more line feeds.\<close>

fun short_nl_runs :: "nat \<Rightarrow> string \<Rightarrow> bool" where
  "short_nl_runs k [] = True"
| "short_nl_runs k (c # cs) =
     (\<not> (c = LF \<and> k \<le> Suc (length (takeWhile (\<lambda>x. x = LF) cs))) \<and> short_nl_runs k cs)"


text \<open>A statement never drops what \<open>results\<close> holds: it only appends.\<close>

definition grows :: "('a, 'w canvas_state) prog \<Rightarrow> bool" where
  "grows m \<longleftrightarrow> (\<forall>s r s'. m s = (r, s') \<longrightarrow> prefix (results s) (results s'))"


text \<open>
  A statement keeps \<open>everOpenedEditor\<close> in step with \<open>results\<close>: it only appends to
  \<open>results\<close>, and the flag is set afterwards exactly when it was set before or something
  was appended.
\<close>

definition tracks :: "('a, 'w canvas_state) prog \<Rightarrow> bool" where
  "tracks m \<longleftrightarrow>
     (\<forall>s r s'. m s = (r, s') \<longrightarrow>
        prefix (results s) (results s') \<and>
        (everOpenedEditor s' \<longleftrightarrow> everOpenedEditor s \<or> results s' \<noteq> results s))"


text \<open>A candidate that no other candidate contains.\<close>

definition outermost :: "elem list \<Rightarrow> elem \<Rightarrow> bool" where
  "outermost cands c \<longleftrightarrow> \<not> (\<exists>d\<in>set cands. strict_prefix (fst d) (fst c))"

section \<open>Fence safety\<close>

lemma foldl_max_ge: "a \<le> foldl (\<lambda>m s. max m (length s)) a xs"
proof (induction xs arbitrary: a)
  case Nil then show ?case by simp
next
  case (Cons y ys)
  have "a \<le> max a (length y)" by simp
  also have "\<dots> \<le> foldl (\<lambda>m s. max m (length s)) (max a (length y)) ys" by (rule Cons)
  finally show ?case by simp
qed

lemma foldl_max_mem: "x \<in> set xs \<Longrightarrow> length x \<le> foldl (\<lambda>m s. max m (length s)) a xs"
proof (induction xs arbitrary: a)
  case Nil then show ?case by simp
next
  case (Cons y ys)
  show ?case
  proof (cases "x = y")
    case True
    have "max a (length y) \<le> foldl (\<lambda>m s. max m (length s)) (max a (length y)) ys"
      by (rule foldl_max_ge)
    with True show ?thesis by simp
  next
    case False
    with Cons show ?thesis by simp
  qed
qed

lemma foldl_max_cases:
  "foldl (\<lambda>m s. max m (length s)) a xs = a \<or>
   (\<exists>x\<in>set xs. foldl (\<lambda>m s. max m (length s)) a xs = length x)"
proof (induction xs arbitrary: a)
  case Nil then show ?case by simp
next
  case (Cons y ys)
  from Cons[of "max a (length y)"] show ?case
    by (auto simp: max_def split: if_splits)
qed

lemma tick_runs_shape:
  "s \<in> set (tick_runs code) \<Longrightarrow> s = replicate (length s) TICK \<and> sublist s code"
proof (induction code rule: tick_runs.induct)
  case 1 then show ?case by simp
next
  case (2 c cs)
  show ?case
  proof (cases "c = TICK")
    case False
    with 2 show ?thesis by (auto intro: sublist_Cons_right[THEN iffD2])
  next
    case True
    let ?run = "takeWhile (\<lambda>x. x = TICK) cs"
    let ?rest = "dropWhile (\<lambda>x. x = TICK) cs"
    have split: "c # cs = (c # ?run) @ ?rest" by simp
    from 2(3) True consider (run) "s = c # ?run" | (rest) "s \<in> set (tick_runs ?rest)" by auto
    then show ?thesis
    proof cases
      case run
      have "set ?run \<subseteq> {TICK}" by (auto dest: set_takeWhileD)
      then have "?run = replicate (length ?run) TICK"
        by (metis (no_types, lifting) replicate_eqI singletonD subsetD)
      with run True have "s = replicate (length s) TICK" by simp
      moreover have "sublist s (c # cs)"
        unfolding run by (metis split prefix_imp_sublist prefixI)
      ultimately show ?thesis by simp
    next
      case rest
      with 2(1)[OF True] have "s = replicate (length s) TICK" "sublist s ?rest" by auto
      moreover have "sublist ?rest (c # cs)"
        by (metis split suffix_imp_sublist suffixI)
      ultimately show ?thesis using sublist_order.order_trans by blast
    qed
  qed
qed

lemma tick_runs_cover:
  "sublist (replicate n TICK) code \<Longrightarrow> 0 < n \<Longrightarrow> \<exists>s\<in>set (tick_runs code). n \<le> length s"
proof (induction code rule: tick_runs.induct)
  case 1 then show ?case by simp
next
  case (2 c cs)
  show ?case
  proof (cases "c = TICK")
    case False
    from 2(3,4) False have "sublist (replicate n TICK) cs"
      by (cases n) (auto simp: sublist_Cons_right prefix_Cons)
    with 2(2)[OF False] 2(4) False show ?thesis by simp
  next
    case True
    let ?run = "takeWhile (\<lambda>x. x = TICK) cs"
    let ?rest = "dropWhile (\<lambda>x. x = TICK) cs"
    have "sublist (replicate n TICK) ((c # ?run) @ ?rest)" using 2(3) by simp
    then consider
        (a) "sublist (replicate n TICK) (c # ?run)"
      | (b) "sublist (replicate n TICK) ?rest"
      | (c) xs1 xs2 where "replicate n TICK = xs1 @ xs2" "suffix xs1 (c # ?run)" "prefix xs2 ?rest"
      unfolding sublist_append by blast
    then show ?thesis
    proof cases
      case a
      then have "n \<le> length (c # ?run)" by (metis sublist_length_le length_replicate)
      with True show ?thesis by auto
    next
      case b
      with 2(1)[OF True] 2(4) True show ?thesis by auto
    next
      case c
      show ?thesis
      proof (cases xs2)
        case Nil
        with c have "suffix (replicate n TICK) (c # ?run)" by simp
        then have "n \<le> length (c # ?run)" by (metis suffix_length_le length_replicate)
        with True show ?thesis by auto
      next
        case (Cons y ys)
        with c(1) have "y \<in> set (replicate n TICK)" by (metis in_set_conv_decomp)
        then have "y = TICK" by simp
        moreover from c(3) Cons obtain zs where "?rest = y # zs"
          by (auto simp: prefix_def)
        then have "y \<noteq> TICK" using hd_dropWhile[of "\<lambda>x. x = TICK" cs] by simp
        ultimately show ?thesis by simp
      qed
    qed
  qed
qed


lemma sublist_replicate_le: "m \<le> n \<Longrightarrow> sublist (replicate m x) (replicate n x)"
proof -
  assume "m \<le> n"
  then have "replicate n x = replicate m x @ replicate (n - m) x"
    by (simp flip: replicate_add)
  then show ?thesis by (metis prefixI prefix_imp_sublist)
qed

lemma longest_run_upper:
  "sublist (replicate n TICK) code \<Longrightarrow> n \<le> foldl (\<lambda>m s. max m (length s)) 0 (tick_runs code)"
proof (cases "n = 0")
  case True then show ?thesis by simp
next
  case False
  assume "sublist (replicate n TICK) code"
  with False obtain s where "s \<in> set (tick_runs code)" "n \<le> length s"
    using tick_runs_cover by blast
  then show ?thesis using foldl_max_mem[of s "tick_runs code" 0] by simp
qed

lemma longest_run_attained:
  "sublist (replicate (foldl (\<lambda>m s. max m (length s)) 0 (tick_runs code)) TICK) code"
proof -
  let ?mx = "foldl (\<lambda>m s. max m (length s)) 0 (tick_runs code)"
  from foldl_max_cases[of 0 "tick_runs code"] consider "?mx = 0" | s where "s \<in> set (tick_runs code)" "?mx = length s"
    by auto
  then show ?thesis
  proof cases
    case 1 then show ?thesis by simp
  next
    case 2
    with tick_runs_shape[of s code] show ?thesis by simp
  qed
qed

lemma longest_run_eq:
  assumes "sublist (replicate k TICK) code" and "\<not> sublist (replicate (Suc k) TICK) code"
  shows "foldl (\<lambda>m s. max m (length s)) 0 (tick_runs code) = k"
proof -
  let ?mx = "foldl (\<lambda>m s. max m (length s)) 0 (tick_runs code)"
  have "k \<le> ?mx" using assms(1) by (rule longest_run_upper)
  moreover have "?mx \<le> k"
  proof (rule ccontr)
    assume "\<not> ?mx \<le> k"
    then have "Suc k \<le> ?mx" by simp
    then have "sublist (replicate (Suc k) TICK) (replicate ?mx TICK)" by (rule sublist_replicate_le)
    with longest_run_attained[of code] have "sublist (replicate (Suc k) TICK) code"
      using sublist_order.order_trans by blast
    with assms(2) show False by simp
  qed
  ultimately show ?thesis by simp
qed

section \<open>Idempotence of the whitespace normalisation\<close>

subsection \<open>Carriage returns\<close>

lemma replace_crlf_id: "CR \<notin> set s \<Longrightarrow> replace_crlf s = s"
  by (induction s rule: replace_crlf.induct) auto

lemma replace_cr_id: "CR \<notin> set s \<Longrightarrow> replace_cr s = s"
  by (induction s) (auto simp: replace_cr_def)

lemma replace_cr_no_cr: "CR \<notin> set (replace_cr s)"
  by (auto simp: replace_cr_def)

lemma strip_plain: "\<not> is_blank c \<Longrightarrow> strip_blanks_before_nl (c # cs) = c # strip_blanks_before_nl cs"
  by simp

lemma strip_match:
  "is_blank c \<Longrightarrow> dropWhile is_blank cs = LF # rest \<Longrightarrow>
   strip_blanks_before_nl (c # cs) = LF # strip_blanks_before_nl rest"
  by simp

lemma strip_nomatch:
  "is_blank c \<Longrightarrow> dropWhile is_blank cs = [] \<or> hd (dropWhile is_blank cs) \<noteq> LF \<Longrightarrow>
   strip_blanks_before_nl (c # cs) = c # strip_blanks_before_nl cs"
  by (cases "dropWhile is_blank cs") (auto simp del: dropWhile_eq_Nil_conv)

lemma strip_cases [case_names nil plain match nomatch]:
  assumes "s = [] \<Longrightarrow> P"
    and "\<And>c cs. s = c # cs \<Longrightarrow> \<not> is_blank c \<Longrightarrow> P"
    and "\<And>c cs rest. s = c # cs \<Longrightarrow> is_blank c \<Longrightarrow> dropWhile is_blank cs = LF # rest \<Longrightarrow> P"
    and "\<And>c cs. s = c # cs \<Longrightarrow> is_blank c \<Longrightarrow>
           dropWhile is_blank cs = [] \<or> hd (dropWhile is_blank cs) \<noteq> LF \<Longrightarrow> P"
  shows P
proof (cases s)
  case Nil with assms(1) show ?thesis .
next
  case (Cons c cs)
  show ?thesis
  proof (cases "is_blank c")
    case False with Cons assms(2) show ?thesis by blast
  next
    case True
    show ?thesis
    proof (cases "dropWhile is_blank cs")
      case Nil with Cons True assms(4) show ?thesis by blast
    next
      case (Cons d rest)
      show ?thesis
      proof (cases "d = LF")
        case True
        with Cons \<open>s = c # cs\<close> \<open>is_blank c\<close> assms(3) show ?thesis by blast
      next
        case False
        with Cons have "hd (dropWhile is_blank cs) \<noteq> LF" by simp
        with \<open>s = c # cs\<close> \<open>is_blank c\<close> assms(4) show ?thesis by blast
      qed
    qed
  qed
qed

lemma strip_set: "set (strip_blanks_before_nl s) \<subseteq> set s"
proof (induction s rule: length_induct)
  case (1 s)
  show ?case
  proof (cases s rule: strip_cases)
    case nil then show ?thesis by simp
  next
    case (plain c cs)
    with 1 have "set (strip_blanks_before_nl cs) \<subseteq> set cs" by simp
    with plain show ?thesis by (auto simp: strip_plain)
  next
    case (match c cs rest)
    then have len: "length rest < length s"
      using length_dropWhile_le[of is_blank cs] by simp
    have sub: "set (LF # rest) \<subseteq> set cs" using match(3) by (metis set_dropWhileD subsetI)
    from 1 len have "set (strip_blanks_before_nl rest) \<subseteq> set rest" by simp
    with sub match show ?thesis by (auto simp: strip_match simp del: strip_blanks_before_nl.simps)
  next
    case (nomatch c cs)
    with 1 have "set (strip_blanks_before_nl cs) \<subseteq> set cs" by simp
    with nomatch show ?thesis by (auto simp: strip_nomatch simp del: strip_blanks_before_nl.simps)
  qed
qed

lemma replace_nl_runs_set: "set (replace_nl_runs k r s) \<subseteq> set s \<union> set r"
proof (induction k r s rule: replace_nl_runs.induct)
  case (1 k r) then show ?case by simp
next
  case (2 k r c cs)
  have "set (dropWhile (\<lambda>x. x = LF) cs) \<subseteq> set cs" by (auto dest: set_dropWhileD)
  with 2 show ?case by (auto split: if_splits)
qed

lemma trimEnd_decomp: "s = trimEnd s @ rev (takeWhile is_space (rev s))"
proof -
  have "s = rev (takeWhile is_space (rev s) @ dropWhile is_space (rev s))"
    by (simp only: takeWhile_dropWhile_id rev_rev_ident)
  then show ?thesis by (simp only: trimEnd_def rev_append)
qed

lemma trimStart_decomp: "s = takeWhile is_space s @ trimStart s"
  by (simp add: trimStart_def)

lemma trim_decomp: "\<exists>pre post. s = pre @ trim s @ post"
  unfolding trim_def using trimStart_decomp[of s] trimEnd_decomp[of "trimStart s"]
  by metis

lemma trim_set: "set (trim s) \<subseteq> set s"
proof -
  obtain pre post where "s = pre @ trim s @ post" using trim_decomp by blast
  then have "set s = set pre \<union> set (trim s) \<union> set post" by (metis set_append Un_assoc)
  then show ?thesis by blast
qed

subsection \<open>Trimming\<close>

lemma trimEnd_last: "trimEnd s \<noteq> [] \<Longrightarrow> \<not> is_space (last (trimEnd s))"
  unfolding trimEnd_def using hd_dropWhile[of is_space "rev s"]
  by (simp add: last_rev)

lemma trimStart_hd: "trimStart s \<noteq> [] \<Longrightarrow> \<not> is_space (hd (trimStart s))"
  unfolding trimStart_def by (rule hd_dropWhile)

lemma trimStart_id: "s = [] \<or> \<not> is_space (hd s) \<Longrightarrow> trimStart s = s"
  by (cases s) (auto simp: trimStart_def)

lemma trimEnd_id: "s = [] \<or> \<not> is_space (last s) \<Longrightarrow> trimEnd s = s"
proof -
  assume a: "s = [] \<or> \<not> is_space (last s)"
  have "dropWhile is_space (rev s) = rev s"
  proof (cases "rev s")
    case Nil then show ?thesis by simp
  next
    case (Cons x xs)
    then have "s \<noteq> []" "last s = x" by (auto simp: last_rev[symmetric] simp del: last_rev) 
    with a Cons show ?thesis by simp
  qed
  then show ?thesis by (simp add: trimEnd_def)
qed

lemma trim_hd: "trim s \<noteq> [] \<Longrightarrow> \<not> is_space (hd (trim s))"
proof -
  assume ne: "trim s \<noteq> []"
  let ?t = "trimStart s"
  have dec: "?t = trim s @ rev (takeWhile is_space (rev ?t))"
    unfolding trim_def by (rule trimEnd_decomp)
  with ne have "?t \<noteq> []" by auto
  moreover from dec ne have "hd ?t = hd (trim s)" by (metis hd_append2)
  ultimately show ?thesis using trimStart_hd[of s] by simp
qed

lemma trim_last: "trim s \<noteq> [] \<Longrightarrow> \<not> is_space (last (trim s))"
  unfolding trim_def by (rule trimEnd_last)

lemma trim_id: "(s = [] \<or> \<not> is_space (hd s)) \<Longrightarrow> (s = [] \<or> \<not> is_space (last s)) \<Longrightarrow> trim s = s"
  by (simp add: trim_def trimStart_id trimEnd_id)

lemma trim_idem: "trim (trim s) = trim s"
  by (rule trim_id) (use trim_hd trim_last in blast)+


subsection \<open>Blanks before a line feed\<close>

lemma nbl_Cons: "no_blank_nl (c # s) \<longleftrightarrow> \<not> (is_blank c \<and> s \<noteq> [] \<and> hd s = LF) \<and> no_blank_nl s"
  by (cases s) auto

lemma nbl_append: "no_blank_nl (xs @ ys) \<Longrightarrow> no_blank_nl xs \<and> no_blank_nl ys"
proof (induction xs)
  case Nil then show ?case by simp
next
  case (Cons x xs)
  then show ?case by (cases xs) (auto simp: nbl_Cons)
qed

lemma nbl_blank_run: "no_blank_nl (bs @ LF # r) \<Longrightarrow> bs \<noteq> [] \<Longrightarrow> \<not> is_blank (last bs)"
proof (induction bs)
  case Nil then show ?case by simp
next
  case (Cons b bs)
  then show ?case by (cases bs) (auto simp: nbl_Cons)
qed

lemma strip_Nil_iff: "strip_blanks_before_nl s = [] \<longleftrightarrow> s = []"
  by (cases s rule: strip_cases)
     (simp_all add: strip_match strip_nomatch strip_plain del: strip_blanks_before_nl.simps(2))

lemma strip_hd_LF:
  assumes "strip_blanks_before_nl s \<noteq> []" and "hd (strip_blanks_before_nl s) = LF"
  shows "\<exists>rest. dropWhile is_blank s = LF # rest"
proof (cases s rule: strip_cases)
  case nil with assms(1) show ?thesis by simp
next
  case (plain c cs)
  with assms(2) show ?thesis by simp
next
  case (match c cs rest)
  then show ?thesis by simp
next
  case (nomatch c cs)
  with assms(2) have "c = LF" by (simp add: strip_nomatch del: strip_blanks_before_nl.simps)
  with nomatch(2) show ?thesis by (simp add: is_blank_def)
qed

lemma nbl_strip: "no_blank_nl (strip_blanks_before_nl s)"
proof (induction s rule: length_induct)
  case (1 s)
  show ?case
  proof (cases s rule: strip_cases)
    case nil then show ?thesis by simp
  next
    case (plain c cs)
    with 1 have "no_blank_nl (strip_blanks_before_nl cs)" by simp
    with plain show ?thesis by (simp add: nbl_Cons)
  next
    case (match c cs rest)
    then have "length rest < length s"
      using length_dropWhile_le[of is_blank cs] by simp
    with 1 have "no_blank_nl (strip_blanks_before_nl rest)" by simp
    with match show ?thesis
      by (simp add: strip_match nbl_Cons is_blank_def del: strip_blanks_before_nl.simps)
  next
    case (nomatch c cs)
    with 1 have ih: "no_blank_nl (strip_blanks_before_nl cs)" by simp
    have "\<not> (strip_blanks_before_nl cs \<noteq> [] \<and> hd (strip_blanks_before_nl cs) = LF)"
    proof
      assume "strip_blanks_before_nl cs \<noteq> [] \<and> hd (strip_blanks_before_nl cs) = LF"
      then obtain rest where "dropWhile is_blank cs = LF # rest" using strip_hd_LF by blast
      with nomatch(3) show False by simp
    qed
    with ih nomatch show ?thesis
      by (simp add: strip_nomatch nbl_Cons del: strip_blanks_before_nl.simps)
  qed
qed

lemma strip_id: "no_blank_nl s \<Longrightarrow> strip_blanks_before_nl s = s"
proof (induction s)
  case Nil then show ?case by simp
next
  case (Cons c cs)
  then have ih: "strip_blanks_before_nl cs = cs" by (simp add: nbl_Cons)
  show ?case
  proof (cases "c # cs" rule: strip_cases)
    case nil then show ?thesis by simp
  next
    case (plain c' cs') with ih show ?thesis by simp
  next
    case (match c' cs' rest)
    then have "c # cs = (c # takeWhile is_blank cs) @ LF # rest"
      by (metis append_Cons list.inject takeWhile_dropWhile_id)
    with Cons.prems have "\<not> is_blank (last (c # takeWhile is_blank cs))"
      using nbl_blank_run[of "c # takeWhile is_blank cs" rest] by simp
    moreover have "is_blank (last (c # takeWhile is_blank cs))"
    proof (cases "takeWhile is_blank cs = []")
      case True with match show ?thesis by simp
    next
      case False
      then have "last (takeWhile is_blank cs) \<in> set (takeWhile is_blank cs)" by (rule last_in_set)
      then have "is_blank (last (takeWhile is_blank cs))" by (rule set_takeWhileD[THEN conjunct2])
      with False show ?thesis by simp
    qed
    ultimately show ?thesis by simp
  next
    case (nomatch c' cs')
    with ih show ?thesis by (simp add: strip_nomatch del: strip_blanks_before_nl.simps)
  qed
qed

lemma replace_nl_runs_long:
  "c = LF \<Longrightarrow> k \<le> Suc (length (takeWhile (\<lambda>x. x = LF) cs)) \<Longrightarrow>
   replace_nl_runs k r (c # cs) = r @ replace_nl_runs k r (dropWhile (\<lambda>x. x = LF) cs)"
  by auto

lemma replace_nl_runs_short:
  "\<not> (c = LF \<and> k \<le> Suc (length (takeWhile (\<lambda>x. x = LF) cs))) \<Longrightarrow>
   replace_nl_runs k r (c # cs) = c # replace_nl_runs k r cs"
  by auto

lemma replace_nl_runs_other: "c \<noteq> LF \<Longrightarrow> replace_nl_runs k r (c # cs) = c # replace_nl_runs k r cs"
  by simp

lemma replace_nl_runs_hd:
  "s = [] \<or> hd s \<noteq> LF \<Longrightarrow> replace_nl_runs k r s = [] \<or> hd (replace_nl_runs k r s) \<noteq> LF"
  by (cases s) auto

lemma nbl_LFs: "set r \<subseteq> {LF} \<Longrightarrow> no_blank_nl (r @ s) = no_blank_nl s"
proof (induction r)
  case Nil then show ?case by simp
next
  case (Cons a r)
  then have "a = LF" by simp
  with Cons show ?case by (cases "r @ s") (auto simp: nbl_Cons is_blank_def)
qed

lemma nbl_replace:
  "no_blank_nl s \<Longrightarrow> set r \<subseteq> {LF} \<Longrightarrow> no_blank_nl (replace_nl_runs k r s)"
proof (induction k r s rule: replace_nl_runs.induct)
  case (1 k r) then show ?case by simp
next
  case (2 k r c cs)
  let ?long = "c = LF \<and> k \<le> Suc (length (takeWhile (\<lambda>x. x = LF) cs))"
  show ?case
  proof (cases ?long)
    case True
    have "c # cs = (c # takeWhile (\<lambda>x. x = LF) cs) @ dropWhile (\<lambda>x. x = LF) cs" by simp
    with 2(3) have "no_blank_nl (dropWhile (\<lambda>x. x = LF) cs)" by (metis nbl_append)
    with 2(1)[OF True] 2(4) have "no_blank_nl (replace_nl_runs k r (dropWhile (\<lambda>x. x = LF) cs))" by simp
    with True 2(4) show ?thesis by (simp add: replace_nl_runs_long nbl_LFs del: replace_nl_runs.simps)
  next
    case False
    from 2(3) have tl: "no_blank_nl cs" and hd: "\<not> (is_blank c \<and> cs \<noteq> [] \<and> hd cs = LF)"
      by (simp_all add: nbl_Cons)
    from 2(2)[OF False tl 2(4)] have ih: "no_blank_nl (replace_nl_runs k r cs)" .
    have "\<not> (is_blank c \<and> replace_nl_runs k r cs \<noteq> [] \<and> hd (replace_nl_runs k r cs) = LF)"
      using hd replace_nl_runs_hd[of cs k r] by blast
    moreover have "replace_nl_runs k r (c # cs) = c # replace_nl_runs k r cs"
      using False by (rule replace_nl_runs_short)
    ultimately show ?thesis using ih by (simp only: nbl_Cons) blast
  qed
qed


subsection \<open>Runs of line feeds\<close>

lemma takeWhile_LF_run:
  "t = [] \<or> hd t \<noteq> LF \<Longrightarrow> takeWhile (\<lambda>x. x = LF) (replicate m LF @ t) = replicate m LF"
  by (cases t) (auto simp: takeWhile_append)

lemma dropWhile_LF_run:
  "t = [] \<or> hd t \<noteq> LF \<Longrightarrow> dropWhile (\<lambda>x. x = LF) (replicate m LF @ t) = t"
  by (cases t) (auto simp: dropWhile_append)

lemma LF_run_decomp:
  "s = replicate (length (takeWhile (\<lambda>x. x = LF) s)) LF @ dropWhile (\<lambda>x. x = LF) s"
proof -
  have "set (takeWhile (\<lambda>x. x = LF) s) \<subseteq> {LF}" by (auto dest: set_takeWhileD)
  then have "takeWhile (\<lambda>x. x = LF) s = replicate (length (takeWhile (\<lambda>x. x = LF) s)) LF"
    by (metis (no_types, lifting) replicate_eqI singletonD subsetD)
  then show ?thesis by (metis takeWhile_dropWhile_id)
qed

lemma dropWhile_LF_hd:
  "dropWhile (\<lambda>x. x = LF) s = [] \<or> hd (dropWhile (\<lambda>x. x = LF) s) \<noteq> LF"
  using hd_dropWhile[of "\<lambda>x. x = LF" s] by blast

lemma replace_run:
  assumes "t = [] \<or> hd t \<noteq> LF"
  shows "replace_nl_runs k r (replicate m LF @ t) =
         (if 0 < m \<and> k \<le> m then r @ replace_nl_runs k r t
          else replicate m LF @ replace_nl_runs k r t)"
proof (induction m)
  case 0 show ?case by simp
next
  case (Suc m)
  have tw: "takeWhile (\<lambda>x. x = LF) (replicate m LF @ t) = replicate m LF"
    and dw: "dropWhile (\<lambda>x. x = LF) (replicate m LF @ t) = t"
    using assms by (simp_all add: takeWhile_LF_run dropWhile_LF_run)
  show ?case
  proof (cases "k \<le> Suc m")
    case True
    then have "replace_nl_runs k r (LF # replicate m LF @ t) = r @ replace_nl_runs k r t"
      using replace_nl_runs_long[of LF k "replicate m LF @ t" r] by (simp add: tw dw)
    with True show ?thesis by simp
  next
    case False
    then have "replace_nl_runs k r (LF # replicate m LF @ t) = LF # replace_nl_runs k r (replicate m LF @ t)"
      using replace_nl_runs_short[of LF k "replicate m LF @ t" r] by (simp add: tw)
    with False Suc show ?thesis by simp
  qed
qed

lemma short_run_prefix:
  assumes "t = [] \<or> hd t \<noteq> LF"
  shows "short_nl_runs k (replicate j LF @ t) \<longleftrightarrow> (j = 0 \<or> j < k) \<and> short_nl_runs k t"
proof (induction j)
  case 0 show ?case by simp
next
  case (Suc j)
  have "takeWhile (\<lambda>x. x = LF) (replicate j LF @ t) = replicate j LF"
    using assms by (rule takeWhile_LF_run)
  with Suc show ?case by auto
qed

lemma replace_short_id: "short_nl_runs k s \<Longrightarrow> replace_nl_runs k r s = s"
proof (induction s)
  case Nil then show ?case by simp
next
  case (Cons c cs)
  then have "\<not> (c = LF \<and> k \<le> Suc (length (takeWhile (\<lambda>x. x = LF) cs)))" and "short_nl_runs k cs"
    by simp_all
  with Cons.IH show ?case by (simp add: replace_nl_runs_short del: replace_nl_runs.simps)
qed

lemma short_replace:
  assumes r: "r = replicate j LF" and j: "j < k"
  shows "short_nl_runs k (replace_nl_runs k r s)"
proof (induction s rule: length_induct)
  case (1 s)
  let ?m = "length (takeWhile (\<lambda>x. x = LF) s)"
  let ?t = "dropWhile (\<lambda>x. x = LF) s"
  have s: "s = replicate ?m LF @ ?t" by (rule LF_run_decomp)
  have t: "?t = [] \<or> hd ?t \<noteq> LF" by (rule dropWhile_LF_hd)
  have rep: "replace_nl_runs k r s =
      (if 0 < ?m \<and> k \<le> ?m then r @ replace_nl_runs k r ?t
       else replicate ?m LF @ replace_nl_runs k r ?t)"
    using replace_run[OF t, of k r ?m] s by simp
  have t': "replace_nl_runs k r ?t = [] \<or> hd (replace_nl_runs k r ?t) \<noteq> LF"
    using t by (rule replace_nl_runs_hd)
  have tail: "short_nl_runs k (replace_nl_runs k r ?t)"
  proof (cases ?t)
    case Nil
    have "short_nl_runs k (replace_nl_runs k r [])" by simp
    then show ?thesis by (simp only: Nil)
  next
    case (Cons c t')
    with t have c: "c \<noteq> LF" by simp
    have "length t' < length s"
      using Cons length_dropWhile_le[of "\<lambda>x. x = LF" s] by simp
    with 1 have "short_nl_runs k (replace_nl_runs k r t')" by simp
    with c have "short_nl_runs k (replace_nl_runs k r (c # t'))" by simp
    then show ?thesis by (simp only: Cons)
  qed
  show ?case
  proof (cases "0 < ?m \<and> k \<le> ?m")
    case True
    have eq: "replace_nl_runs k r s = replicate j LF @ replace_nl_runs k r ?t"
      by (subst rep) (simp only: True if_True r simp_thms)
    have "short_nl_runs k (replicate j LF @ replace_nl_runs k r ?t)"
      unfolding short_run_prefix[OF t'] using tail j by blast
    then show ?thesis by (simp only: eq)
  next
    case False
    have eq: "replace_nl_runs k r s = replicate ?m LF @ replace_nl_runs k r ?t"
      by (subst rep) (simp only: False if_False simp_thms)
    from False have "?m = 0 \<or> ?m < k" by linarith
    then have "short_nl_runs k (replicate ?m LF @ replace_nl_runs k r ?t)"
      unfolding short_run_prefix[OF t'] using tail by blast
    then show ?thesis by (simp only: eq)
  qed
qed

lemma takeWhile_append_le: "length (takeWhile P xs) \<le> length (takeWhile P (xs @ ys))"
  by (induction xs) auto

lemma short_append: "short_nl_runs k (xs @ ys) \<Longrightarrow> short_nl_runs k xs \<and> short_nl_runs k ys"
proof (induction xs)
  case Nil then show ?case by simp
next
  case (Cons x xs)
  have "length (takeWhile (\<lambda>x. x = LF) xs) \<le> length (takeWhile (\<lambda>x. x = LF) (xs @ ys))"
    by (rule takeWhile_append_le)
  with Cons show ?case by auto
qed

subsection \<open>The two passes\<close>

lemma nbl_trim: "no_blank_nl s \<Longrightarrow> no_blank_nl (trim s)"
  using trim_decomp[of s] by (metis nbl_append)

lemma short_trim: "short_nl_runs k s \<Longrightarrow> short_nl_runs k (trim s)"
  using trim_decomp[of s] by (metis short_append)

text \<open>
  Claim C2. The whitespace normalisation is idempotent: for every string \<open>s\<close>,
  \<open>cleanupMarkdown (cleanupMarkdown s) = cleanupMarkdown s\<close>, and the same holds for
  the inline pass \<open>cleanupMarkdownInline\<close>.
\<close>

theorem cleanup_idempotent:
  "cleanupMarkdown (cleanupMarkdown s) = cleanupMarkdown s \<and>
   cleanupMarkdownInline (cleanupMarkdownInline s) = cleanupMarkdownInline s"
proof
  let ?a = "replace_cr (replace_crlf s)"
  let ?b = "strip_blanks_before_nl ?a"
  let ?c = "replace_nl_runs 3 [LF, LF] ?b"
  let ?d = "cleanupMarkdown s"
  have d: "?d = trim ?c" by (simp add: cleanupMarkdown_def)
  have "CR \<notin> set ?a" by (rule replace_cr_no_cr)
  then have "CR \<notin> set ?b" using strip_set[of ?a] by blast
  then have "CR \<notin> set ?c" using replace_nl_runs_set[of 3 "[LF, LF]" ?b] by auto
  then have cr: "CR \<notin> set ?d" unfolding d using trim_set[of ?c] by blast
  have "no_blank_nl ?b" by (rule nbl_strip)
  then have "no_blank_nl ?c" by (rule nbl_replace) simp
  then have nbl: "no_blank_nl ?d" unfolding d by (rule nbl_trim)
  have "short_nl_runs 3 ?c" by (rule short_replace[where j = 2]) (simp_all add: numeral_2_eq_2)
  then have short: "short_nl_runs 3 ?d" unfolding d by (rule short_trim)
  have "cleanupMarkdown ?d = trim ?d"
    unfolding cleanupMarkdown_def[of ?d]
    by (simp only: replace_crlf_id[OF cr] replace_cr_id[OF cr] strip_id[OF nbl] replace_short_id[OF short])
  also have "\<dots> = ?d" unfolding d by (rule trim_idem)
  finally show "cleanupMarkdown ?d = ?d" .
next
  let ?b = "strip_blanks_before_nl s"
  let ?c = "cleanupMarkdownInline s"
  have c: "?c = replace_nl_runs 2 [LF] ?b" by (simp add: cleanupMarkdownInline_def)
  have "no_blank_nl ?b" by (rule nbl_strip)
  then have nbl: "no_blank_nl ?c" unfolding c by (rule nbl_replace) simp
  have short: "short_nl_runs 2 ?c" unfolding c by (rule short_replace[where j = 1]) simp_all
  show "cleanupMarkdownInline ?c = ?c"
    unfolding cleanupMarkdownInline_def[of ?c]
    by (simp only: strip_id[OF nbl] replace_short_id[OF short])
qed

section \<open>The automation: exceptions and collected results\<close>

subsection \<open>\<open>restoreUiState\<close>\<close>

lemma warn_returns: "warn U msg w = (Inr (), console_warn U msg w)"
  by (simp add: warn_def)

lemma restoreUiState_returns:
  "restoreUiState U state w =
     (case restore_body U state w of
        (Inl e, w1) \<Rightarrow> (Inr (), console_warn U (RestoreFailed e) w1)
      | (Inr u, w1) \<Rightarrow> (Inr (), w1))"
  by (simp add: restoreUiState_def try_catch_def warn_def split: prod.splits sum.splits)

lemma restoreUiState_normal: "\<exists>w'. restoreUiState U state w = (Inr (), w')"
  by (simp add: restoreUiState_returns split: prod.splits sum.splits)

text \<open>
  Claim C7. \<open>restoreUiState\<close> never propagates a failure: for every snapshot, also
  \<open>null\<close>, and whatever the page operations do, it returns normally; an exception of a
  restoration step ends the restoration and is only logged.
\<close>

theorem restoreUiState_never_throws:
  "(\<exists>w'. restoreUiState U state w = (Inr (), w')) \<and>
   restoreUiState U state w =
     (case restore_body U state w of
        (Inl e, w1) \<Rightarrow> (Inr (), console_warn U (RestoreFailed e) w1)
      | (Inr u, w1) \<Rightarrow> (Inr (), w1))"
  by (intro conjI restoreUiState_normal restoreUiState_returns)

subsection \<open>The loop over the titles\<close>

lemma growsI: "(\<And>s r s'. m s = (r, s') \<Longrightarrow> prefix (results s) (results s')) \<Longrightarrow> grows m"
  by (simp add: grows_def)

lemma growsD: "grows m \<Longrightarrow> m s = (r, s') \<Longrightarrow> prefix (results s) (results s')"
  by (simp add: grows_def)

lemma grows_ret [intro!, simp]: "grows (ret x)"
  by (simp add: grows_def ret_def)

lemma grows_on_page [intro!, simp]: "grows (on_page m)"
  by (auto simp: grows_def on_page_def split: prod.splits)

lemma grows_bind [intro!]: "grows m \<Longrightarrow> (\<And>x. grows (f x)) \<Longrightarrow> grows (bind m f)"
  unfolding grows_def bind_def
  by (auto split: prod.splits sum.splits) (meson prefix_order.order_trans)

lemma grows_try_catch [intro!]: "grows m \<Longrightarrow> (\<And>e. grows (h e)) \<Longrightarrow> grows (try_catch m h)"
  unfolding grows_def try_catch_def
  by (auto split: prod.splits sum.splits) (meson prefix_order.order_trans)

lemma grows_if [intro!]: "(c \<Longrightarrow> grows m) \<Longrightarrow> (\<not> c \<Longrightarrow> grows n) \<Longrightarrow> grows (if c then m else n)"
  by simp

lemma grows_state_if [intro!]:
  "grows m \<Longrightarrow> grows n \<Longrightarrow> grows (\<lambda>s. if c s then m s else n s)"
  by (auto simp: grows_def)

lemma grows_update_push [intro!, simp]:
  "(\<And>s. prefix (results s) (results (f s))) \<Longrightarrow> grows (update f)"
  by (auto simp: grows_def update_def)

lemma grows_flow_case [intro!]:
  "grows m \<Longrightarrow> grows n \<Longrightarrow> grows (case fl of Break \<Rightarrow> m | Continue \<Rightarrow> n)"
  by (cases fl) simp_all

lemma grows_option_case [intro!]:
  "grows m \<Longrightarrow> (\<And>x. grows (f x)) \<Longrightarrow> grows (case opt of None \<Rightarrow> m | Some x \<Rightarrow> f x)"
  by (cases opt) simp_all

lemma grows_select_code_tab [intro!, simp]: "grows (select_code_tab U)"
  unfolding select_code_tab_def by (intro grows_bind grows_option_case grows_on_page grows_ret)

lemma grows_let_round:
  "grows (\<lambda>s1. (let remainingMs = MAX_TOTAL_MS - (date_now U (page s1) - totalStart)
            in if remainingMs \<le> 0 then ret Break s1 else m remainingMs s1))"
  if "\<And>r. grows (m r)"
  using that by (auto simp: grows_def Let_def ret_def)

lemma grows_round_body [intro!, simp]: "grows (canvas_round_body U totalStart title)"
  unfolding canvas_round_body_def
  apply (rule grows_bind, rule grows_on_page)
  apply (rule grows_if)
   apply (intro grows_bind grows_on_page grows_ret)
  apply (rule grows_state_if, rule grows_ret)
  apply (rule grows_bind, rule grows_on_page)
  apply (rule grows_if)
   apply (intro grows_bind grows_on_page grows_ret)
  apply (rule grows_bind, rule grows_select_code_tab)
  apply (rule grows_let_round)
  apply (rule grows_bind, rule grows_on_page)
  apply (rule grows_bind)
   apply (rule grows_if)
    apply (rule grows_bind)
     apply (rule grows_update_push)
     apply simp
    apply (rule grows_ret)
   apply (rule grows_state_if; rule grows_ret)
  apply (rule grows_flow_case, rule grows_ret)
  apply (intro grows_bind grows_on_page grows_ret grows_if)
  done


lemma canvas_round_returns: "\<exists>fl s'. canvas_round U totalStart title s = (Inr fl, s')"
proof (cases "canvas_round_body U totalStart title s")
  case (Pair r s1)
  then show ?thesis
    by (cases r) (simp_all add: canvas_round_def try_catch_def bind_def on_page_def warn_def ret_def)
qed

lemma grows_round [intro!, simp]: "grows (canvas_round U totalStart title)"
  unfolding canvas_round_def
  by (intro grows_try_catch grows_round_body grows_bind grows_on_page grows_ret)

lemma canvas_loop_returns: "\<exists>s'. canvas_loop U totalStart titles s = (Inr (), s')"
proof (induction titles arbitrary: s)
  case Nil
  show ?case by (simp add: ret_def)
next
  case (Cons title titles)
  obtain fl s1 where round: "canvas_round U totalStart title s = (Inr fl, s1)"
    using canvas_round_returns by blast
  show ?case
  proof (cases "date_now U (page s) - totalStart > MAX_TOTAL_MS")
    case True
    then show ?thesis by (simp add: ret_def)
  next
    case False
    with round Cons.IH[of s1] show ?thesis
      by (cases fl) (auto simp: bind_def ret_def)
  qed
qed

lemma grows_loop [intro!, simp]: "grows (canvas_loop U totalStart titles)"
proof (induction titles)
  case Nil
  show ?case by simp
next
  case (Cons title titles)
  have "grows (bind (canvas_round U totalStart title)
                 (\<lambda>fl. case fl of Break \<Rightarrow> ret () | Continue \<Rightarrow> canvas_loop U totalStart titles))"
    using Cons by (intro grows_bind grows_round grows_flow_case grows_ret)
  moreover have "grows (ret () :: (unit, 'a canvas_state) prog)" by simp
  ultimately have "grows (\<lambda>s. if date_now U (page s) - totalStart > MAX_TOTAL_MS
         then (ret () :: (unit, 'a canvas_state) prog) s
         else bind (canvas_round U totalStart title)
                 (\<lambda>fl. case fl of Break \<Rightarrow> ret () | Continue \<Rightarrow> canvas_loop U totalStart titles) s)"
    by (rule grows_state_if[rotated])
  then show ?case by simp
qed

lemma grows_read_current [intro!, simp]: "grows (read_current U)"
  unfolding read_current_def Let_def
  by (intro grows_bind grows_on_page grows_if grows_ret grows_update_push) simp

lemma grows_fallback [intro!, simp]: "grows (canvas_fallback U)"
proof -
  have inner: "grows (bind (on_page (tryClickOpenButton U)) (\<lambda>opened.
       if opened then
         bind (on_page (waitFor_ignored U CanvasContentPresent 3000 100)) (\<lambda>u.
         bind (on_page (getCanvasContent U None)) (\<lambda>content.
         if truthy_content content
         then update (\<lambda>s1. s1\<lparr>results := results s1 @ [or_empty content]\<rparr>)
         else ret ()))
       else ret ()))"
    by (intro grows_bind grows_on_page grows_if grows_ret grows_update_push) simp
  have "\<And>items :: nat. grows (\<lambda>s. if results s = [] then
       bind (on_page (tryClickOpenButton U)) (\<lambda>opened.
       if opened then
         bind (on_page (waitFor_ignored U CanvasContentPresent 3000 100)) (\<lambda>u.
         bind (on_page (getCanvasContent U None)) (\<lambda>content.
         if truthy_content content
         then update (\<lambda>s1. s1\<lparr>results := results s1 @ [or_empty content]\<rparr>)
         else ret ()))
       else ret ()) s
     else ret () s)"
    using inner by (intro grows_state_if grows_ret)
  then show ?thesis
    unfolding canvas_fallback_def by (intro grows_bind grows_on_page)
qed

lemma grows_steps [intro!, simp]: "grows (canvas_steps U totalStart)"
  unfolding canvas_steps_def
  by (intro grows_bind grows_on_page grows_if grows_read_current grows_loop grows_fallback
        grows_update_push) simp

lemma canvas_try_returns:
  assumes "canvas_steps U totalStart s = (r, s')"
  shows "\<exists>s''. canvas_try U totalStart s = (Inr (results s'), s'') \<and> results s'' = results s'"
  using assms
  by (cases r) (simp_all add: canvas_try_def bind_def try_catch_def on_page_def warn_def ret_def)



subsection \<open>The flag \<open>everOpenedEditor\<close>\<close>

lemma tracksI:
  "(\<And>s r s'. m s = (r, s') \<Longrightarrow> prefix (results s) (results s') \<and>
        (everOpenedEditor s' \<longleftrightarrow> everOpenedEditor s \<or> results s' \<noteq> results s)) \<Longrightarrow> tracks m"
  by (simp add: tracks_def)

lemma tracksD:
  "tracks m \<Longrightarrow> m s = (r, s') \<Longrightarrow> prefix (results s) (results s') \<and>
        (everOpenedEditor s' \<longleftrightarrow> everOpenedEditor s \<or> results s' \<noteq> results s)"
  by (simp add: tracks_def)

lemma tracks_step:
  assumes "prefix (a::'x list) b" "prefix b c"
  shows "c \<noteq> a \<longleftrightarrow> b \<noteq> a \<or> c \<noteq> b"
  using assms by (metis prefix_order.antisym)

lemma tracks_ret [simp]: "tracks (ret x)"
  by (simp add: tracks_def ret_def)

lemma tracks_on_page [simp]: "tracks (on_page m)"
  by (auto simp: tracks_def on_page_def split: prod.splits)

lemma tracks_bind: "tracks m \<Longrightarrow> (\<And>x. tracks (f x)) \<Longrightarrow> tracks (bind m f)"
proof (rule tracksI)
  fix s r s'
  assume m: "tracks m" and f: "\<And>x. tracks (f x)" and run: "bind m f s = (r, s')"
  obtain r1 s1 where m1: "m s = (r1, s1)" by (cases "m s")
  note a = tracksD[OF m m1]
  show "prefix (results s) (results s') \<and>
        (everOpenedEditor s' \<longleftrightarrow> everOpenedEditor s \<or> results s' \<noteq> results s)"
  proof (cases r1)
    case (Inl e)
    with run m1 have "s' = s1" by (simp add: bind_def)
    with a show ?thesis by simp
  next
    case (Inr x)
    with run m1 have "f x s1 = (r, s')" by (simp add: bind_def)
    note b = tracksD[OF f this]
    from a b have "prefix (results s) (results s')" by (meson prefix_order.order_trans)
    moreover from a b have "results s' \<noteq> results s \<longleftrightarrow> results s1 \<noteq> results s \<or> results s' \<noteq> results s1"
      by (intro tracks_step) simp_all
    ultimately show ?thesis using a b by blast
  qed
qed

lemma tracks_try_catch: "tracks m \<Longrightarrow> (\<And>e. tracks (h e)) \<Longrightarrow> tracks (try_catch m h)"
proof (rule tracksI)
  fix s r s'
  assume m: "tracks m" and h: "\<And>e. tracks (h e)" and run: "try_catch m h s = (r, s')"
  obtain r1 s1 where m1: "m s = (r1, s1)" by (cases "m s")
  note a = tracksD[OF m m1]
  show "prefix (results s) (results s') \<and>
        (everOpenedEditor s' \<longleftrightarrow> everOpenedEditor s \<or> results s' \<noteq> results s)"
  proof (cases r1)
    case (Inr x)
    with run m1 have "s' = s1" by (simp add: try_catch_def)
    with a show ?thesis by simp
  next
    case (Inl e)
    with run m1 have "h e s1 = (r, s')" by (simp add: try_catch_def)
    note b = tracksD[OF h this]
    from a b have "prefix (results s) (results s')" by (meson prefix_order.order_trans)
    moreover from a b have "results s' \<noteq> results s \<longleftrightarrow> results s1 \<noteq> results s \<or> results s' \<noteq> results s1"
      by (intro tracks_step) simp_all
    ultimately show ?thesis using a b by blast
  qed
qed

lemma tracks_if: "(c \<Longrightarrow> tracks m) \<Longrightarrow> (\<not> c \<Longrightarrow> tracks n) \<Longrightarrow> tracks (if c then m else n)"
  by simp

lemma tracks_state_if: "tracks m \<Longrightarrow> tracks n \<Longrightarrow> tracks (\<lambda>s. if c s then m s else n s)"
  by (auto simp: tracks_def)

lemma tracks_flow_case:
  "tracks m \<Longrightarrow> tracks n \<Longrightarrow> tracks (case fl of Break \<Rightarrow> m | Continue \<Rightarrow> n)"
  by (cases fl) simp_all

lemma tracks_option_case:
  "tracks m \<Longrightarrow> (\<And>x. tracks (f x)) \<Longrightarrow> tracks (case opt of None \<Rightarrow> m | Some x \<Rightarrow> f x)"
  by (cases opt) simp_all

lemma tracks_select_code_tab [simp]: "tracks (select_code_tab U)"
  unfolding select_code_tab_def by (intro tracks_bind tracks_option_case tracks_on_page tracks_ret)

lemma tracks_push:
  "c \<noteq> [] \<Longrightarrow> tracks (update (\<lambda>s2. s2\<lparr>results := results s2 @ [c],
                                   processedTitles := insert title (processedTitles s2),
                                   everOpenedEditor := True\<rparr>))"
  by (simp add: tracks_def update_def)

lemma tracks_let_round:
  "tracks (\<lambda>s1. (let remainingMs = MAX_TOTAL_MS - (date_now U (page s1) - totalStart)
            in if remainingMs \<le> 0 then ret Break s1 else m remainingMs s1))"
  if "\<And>r. tracks (m r)"
  using that by (auto simp: tracks_def Let_def ret_def)

lemma tracks_round_body [simp]: "tracks (canvas_round_body U totalStart title)"
  unfolding canvas_round_body_def
  apply (rule tracks_bind, rule tracks_on_page)
  apply (rule tracks_if)
   apply (intro tracks_bind tracks_on_page tracks_ret)
  apply (rule tracks_state_if, rule tracks_ret)
  apply (rule tracks_bind, rule tracks_on_page)
  apply (rule tracks_if)
   apply (intro tracks_bind tracks_on_page tracks_ret)
  apply (rule tracks_bind, rule tracks_select_code_tab)
  apply (rule tracks_let_round)
  apply (rule tracks_bind, rule tracks_on_page)
  apply (rule tracks_bind)
   apply (rule tracks_if)
    apply (rule tracks_bind)
     apply (rule tracks_push)
     apply (simp add: truthy_content_def or_empty_def split: option.splits)
    apply (rule tracks_ret)
   apply (rule tracks_state_if; rule tracks_ret)
  apply (rule tracks_flow_case, rule tracks_ret)
  apply (intro tracks_bind tracks_on_page tracks_ret tracks_if)
  done

lemma tracks_round [simp]: "tracks (canvas_round U totalStart title)"
  unfolding canvas_round_def
  by (intro tracks_try_catch tracks_round_body tracks_bind tracks_on_page tracks_ret)

lemma tracks_loop [simp]: "tracks (canvas_loop U totalStart titles)"
proof (induction titles)
  case Nil
  show ?case by simp
next
  case (Cons title titles)
  have "tracks (bind (canvas_round U totalStart title)
                 (\<lambda>fl. case fl of Break \<Rightarrow> ret () | Continue \<Rightarrow> canvas_loop U totalStart titles))"
    using Cons by (intro tracks_bind tracks_round tracks_flow_case tracks_ret)
  moreover have "tracks (ret () :: (unit, 'a canvas_state) prog)" by simp
  ultimately have "tracks (\<lambda>s. if date_now U (page s) - totalStart > MAX_TOTAL_MS
         then (ret () :: (unit, 'a canvas_state) prog) s
         else bind (canvas_round U totalStart title)
                 (\<lambda>fl. case fl of Break \<Rightarrow> ret () | Continue \<Rightarrow> canvas_loop U totalStart titles) s)"
    by (rule tracks_state_if[rotated])
  then show ?case by simp
qed


lemma round_thrown:
  assumes "date_now U (page s) - totalStart \<le> MAX_TOTAL_MS"
    and "canvas_round_body U totalStart title s = (Inl e, s1)"
  shows "canvas_loop U totalStart (title # rest) s =
         canvas_loop U totalStart rest (s1\<lparr>page := console_warn U (ErrorProcessing title e) (page s1)\<rparr>)"
  using assms
  by (simp add: canvas_round_def bind_def try_catch_def on_page_def ret_def warn_def)

lemma click_failed:
  assumes "date_now U (page s) - totalStart \<le> MAX_TOTAL_MS"
    and "ensureFileListVisible U (page s) = (Inr True, w1)"
    and "title \<notin> processedTitles s"
    and "openFileByTitle U title w1 = (r, w2)"
    and "r \<noteq> Inr True"
  shows "canvas_loop U totalStart (title # rest) s =
         canvas_loop U totalStart rest
           (s\<lparr>page := console_warn U (case r of Inr b \<Rightarrow> FailedToClick title | Inl e \<Rightarrow> ErrorProcessing title e) w2\<rparr>)"
  using assms
  by (cases r) (auto simp: canvas_round_def canvas_round_body_def bind_def try_catch_def on_page_def
        ret_def warn_def Let_def)

lemma steps_enter_loop:
  assumes "read_current U s = (Inr (), sa)"
    and "ensureSidebarOpen U (page sa) = (Inr (), wb)"
    and "ensureFileListVisible U wb = (Inr b, wc)"
    and "listCreatedFileTitles U wc = (Inr titles, wd)"
    and "titles \<noteq> []"
  shows "canvas_steps U totalStart s =
         canvas_loop U totalStart titles (sa\<lparr>page := wd, everOpenedEditor := False\<rparr>)"
  using assms
  by (simp add: canvas_steps_def bind_def on_page_def update_def)



lemma demo_ui_sel:
  "date_now (demo_ui opens content) w = int w"
  "console_warn (demo_ui opens content) msg w = w"
  "captureUiState (demo_ui opens content) w = (Inr demo_snapshot, Suc w)"
  "ensureFileListVisible (demo_ui opens content) w = (Inr True, Suc w)"
  "openFileByTitle (demo_ui opens content) title w = (opens title, Suc w)"
  "document_querySelector (demo_ui opens content) sel w = (Inr None, Suc w)"
  "waitFor_content (demo_ui opens content) title t i w = (Inr (content title), Suc w)"
  by (simp_all add: demo_ui_def)

text \<open>
  Claim C4. The loop is entered with \<open>everOpenedEditor\<close> false, and through any part of
  the loop \<open>results\<close> only gets longer and the flag is set afterwards exactly when it was
  set before or an artifact was appended: the flag says whether an artifact has been
  opened in this run. For a round that reaches the poll for the content of \<open>title\<close>:

  \<^item> If the poll yields nothing, neither \<open>results\<close> nor \<open>processedTitles\<close> changes. With
    the flag false (as it is when the first title attempted fails) the loop ends there:
    no later title is attempted and the page stays as the poll left it. With the flag
    set the title is skipped: the file list is shown again and the loop goes on with the
    next title (it ends only if the list cannot be shown, and an exception of that step
    is logged and the loop goes on).

  \<^item> If the poll yields content, the content is appended, the title is marked as
    processed, the flag is set, and the loop goes on in the same way.

  \<^item> If the poll throws, the exception is logged and the loop goes on with the next
    title, whatever the flag.

  The flag is read only after a poll that yielded nothing. A click that fails or throws,
  and any exception thrown in a round, is logged and the loop goes on with the next
  title, whatever the flag.
\<close>

theorem content_failure_policy:
  "(date_now U (page s) - totalStart \<le> MAX_TOTAL_MS \<and>
    ensureFileListVisible U (page s) = (Inr True, w1) \<and>
    title \<notin> processedTitles s \<and>
    openFileByTitle U title w1 = (Inr True, w2) \<and>
    select_code_tab U (s\<lparr>page := w2\<rparr>) = (Inr (), s\<lparr>page := w3\<rparr>) \<and>
    0 < MAX_TOTAL_MS - (date_now U w3 - totalStart) \<and>
    waitFor_content U title (min 8000 (MAX_TOTAL_MS - (date_now U w3 - totalStart))) 200 w3 = (outcome, w4)
    \<longrightarrow>
      (\<forall>content. outcome = Inr content \<and> \<not> truthy_content content \<longrightarrow>
         (\<not> everOpenedEditor s \<longrightarrow>
            canvas_loop U totalStart (title # rest) s = (Inr (), s\<lparr>page := w4\<rparr>)) \<and>
         (everOpenedEditor s \<longrightarrow>
            (\<forall>w5. ensureFileListVisible U w4 = (Inr True, w5) \<longrightarrow>
               canvas_loop U totalStart (title # rest) s =
               canvas_loop U totalStart rest (s\<lparr>page := w5\<rparr>)) \<and>
            (\<forall>w5. ensureFileListVisible U w4 = (Inr False, w5) \<longrightarrow>
               canvas_loop U totalStart (title # rest) s =
               (Inr (), s\<lparr>page := console_warn U FailedToRestoreList w5\<rparr>)) \<and>
            (\<forall>e w5. ensureFileListVisible U w4 = (Inl e, w5) \<longrightarrow>
               canvas_loop U totalStart (title # rest) s =
               canvas_loop U totalStart rest (s\<lparr>page := console_warn U (ErrorProcessing title e) w5\<rparr>)))) \<and>
      (\<forall>content. outcome = Inr content \<and> truthy_content content \<longrightarrow>
         (\<forall>w5. ensureFileListVisible U w4 = (Inr True, w5) \<longrightarrow>
            canvas_loop U totalStart (title # rest) s =
            canvas_loop U totalStart rest
              (s\<lparr>results := results s @ [or_empty content],
                 processedTitles := insert title (processedTitles s), everOpenedEditor := True,
                 page := w5\<rparr>)) \<and>
         (\<forall>w5. ensureFileListVisible U w4 = (Inr False, w5) \<longrightarrow>
            canvas_loop U totalStart (title # rest) s =
            (Inr (), s\<lparr>results := results s @ [or_empty content],
                        processedTitles := insert title (processedTitles s), everOpenedEditor := True,
                        page := console_warn U FailedToRestoreList w5\<rparr>)) \<and>
         (\<forall>e w5. ensureFileListVisible U w4 = (Inl e, w5) \<longrightarrow>
            canvas_loop U totalStart (title # rest) s =
            canvas_loop U totalStart rest
              (s\<lparr>results := results s @ [or_empty content],
                 processedTitles := insert title (processedTitles s), everOpenedEditor := True,
                 page := console_warn U (ErrorProcessing title e) w5\<rparr>))) \<and>
      (\<forall>e. outcome = Inl e \<longrightarrow>
         canvas_loop U totalStart (title # rest) s =
         canvas_loop U totalStart rest (s\<lparr>page := console_warn U (ErrorProcessing title e) w4\<rparr>))) \<and>
   (date_now U (page s) - totalStart \<le> MAX_TOTAL_MS \<and>
    ensureFileListVisible U (page s) = (Inr True, w1) \<and>
    title \<notin> processedTitles s \<and>
    openFileByTitle U title w1 = (r, w2) \<and> r \<noteq> Inr True
    \<longrightarrow>
      canvas_loop U totalStart (title # rest) s =
      canvas_loop U totalStart rest
        (s\<lparr>page := console_warn U
               (case r of Inr b \<Rightarrow> FailedToClick title | Inl e \<Rightarrow> ErrorProcessing title e) w2\<rparr>)) \<and>
   (\<forall>e s1. date_now U (page s) - totalStart \<le> MAX_TOTAL_MS \<and>
      canvas_round_body U totalStart title s = (Inl e, s1) \<longrightarrow>
      canvas_loop U totalStart (title # rest) s =
      canvas_loop U totalStart rest (s1\<lparr>page := console_warn U (ErrorProcessing title e) (page s1)\<rparr>)) \<and>
   (\<forall>sa wb b wc wd. read_current U s = (Inr (), sa) \<and>
      ensureSidebarOpen U (page sa) = (Inr (), wb) \<and>
      ensureFileListVisible U wb = (Inr b, wc) \<and>
      listCreatedFileTitles U wc = (Inr titles, wd) \<and> titles \<noteq> [] \<longrightarrow>
      canvas_steps U totalStart s =
      canvas_loop U totalStart titles (sa\<lparr>page := wd, everOpenedEditor := False\<rparr>)) \<and>
   (\<forall>res s'. canvas_loop U totalStart titles s = (res, s') \<longrightarrow>
      prefix (results s) (results s') \<and>
      (everOpenedEditor s' \<longleftrightarrow> everOpenedEditor s \<or> results s' \<noteq> results s))"
proof (intro conjI)
  show "date_now U (page s) - totalStart \<le> MAX_TOTAL_MS \<and>
    ensureFileListVisible U (page s) = (Inr True, w1) \<and>
    title \<notin> processedTitles s \<and>
    openFileByTitle U title w1 = (r, w2) \<and> r \<noteq> Inr True
    \<longrightarrow>
      canvas_loop U totalStart (title # rest) s =
      canvas_loop U totalStart rest
        (s\<lparr>page := console_warn U
               (case r of Inr b \<Rightarrow> FailedToClick title | Inl e \<Rightarrow> ErrorProcessing title e) w2\<rparr>)"
    using click_failed[of U s totalStart w1 title r w2 rest] by blast
  show "\<forall>e s1. date_now U (page s) - totalStart \<le> MAX_TOTAL_MS \<and>
      canvas_round_body U totalStart title s = (Inl e, s1) \<longrightarrow>
      canvas_loop U totalStart (title # rest) s =
      canvas_loop U totalStart rest (s1\<lparr>page := console_warn U (ErrorProcessing title e) (page s1)\<rparr>)"
    using round_thrown[of U s totalStart title _ _ rest] by blast
  show "\<forall>sa wb b wc wd. read_current U s = (Inr (), sa) \<and>
      ensureSidebarOpen U (page sa) = (Inr (), wb) \<and>
      ensureFileListVisible U wb = (Inr b, wc) \<and>
      listCreatedFileTitles U wc = (Inr titles, wd) \<and> titles \<noteq> [] \<longrightarrow>
      canvas_steps U totalStart s =
      canvas_loop U totalStart titles (sa\<lparr>page := wd, everOpenedEditor := False\<rparr>)"
    using steps_enter_loop[of U s _ _ _ _ titles _ totalStart] by blast
  show "\<forall>res s'. canvas_loop U totalStart titles s = (res, s') \<longrightarrow>
      prefix (results s) (results s') \<and>
      (everOpenedEditor s' \<longleftrightarrow> everOpenedEditor s \<or> results s' \<noteq> results s)"
    using tracksD[OF tracks_loop[of U totalStart titles], of s] by blast
qed (auto simp: canvas_round_def canvas_round_body_def bind_def try_catch_def on_page_def
        ret_def warn_def Let_def update_def)


theorem content_failure_policy_witness:
  "canvas_steps (demo_ui all_open no_b_content) 1 demo_start =
     canvas_loop (demo_ui all_open no_b_content) 1 [''a.js'', ''b.js'', ''c.js''] loop_entry \<and>
   canvas_loop (demo_ui all_open no_b_content) 1 [''a.js'', ''b.js'', ''c.js''] loop_entry =
     canvas_loop (demo_ui all_open no_b_content) 1 [''b.js'', ''c.js''] after_a \<and>
   canvas_loop (demo_ui all_open no_b_content) 1 [''b.js'', ''c.js''] after_a =
     canvas_loop (demo_ui all_open no_b_content) 1 [''c.js''] (after_a\<lparr>page := 15\<rparr>) \<and>
   extractAllCanvasContent (demo_ui all_open no_b_content) 0 =
     (Inr [''## Canvas: a.js'', ''## Canvas: c.js''], 23) \<and>
   canvas_loop (demo_ui all_open only_c_content) 1 [''a.js'', ''b.js'', ''c.js''] loop_entry =
     (Inr (), loop_entry\<lparr>page := 9\<rparr>) \<and>
   extractAllCanvasContent (demo_ui all_open only_c_content) 0 = (Inr [], 12) \<and>
   canvas_loop (demo_ui closed_a all_content) 1 [''a.js'', ''b.js'', ''c.js''] loop_entry =
     canvas_loop (demo_ui closed_a all_content) 1 [''b.js'', ''c.js''] (loop_entry\<lparr>page := 7\<rparr>) \<and>
   extractAllCanvasContent (demo_ui closed_a all_content) 0 =
     (Inr [''## Canvas: b.js'', ''## Canvas: c.js''], 20)"
proof -
  let ?U = "demo_ui all_open no_b_content"
  let ?V = "demo_ui all_open only_c_content"
  let ?W = "demo_ui closed_a all_content"
  have entry: "read_current ?U demo_start = (Inr (), demo_start\<lparr>page := 2\<rparr>) \<and>
      ensureSidebarOpen ?U (page (demo_start\<lparr>page := 2\<rparr>)) = (Inr (), 3) \<and>
      ensureFileListVisible ?U 3 = (Inr True, 4) \<and>
      listCreatedFileTitles ?U 4 = (Inr [''a.js'', ''b.js'', ''c.js''], 5) \<and>
      [''a.js'', ''b.js'', ''c.js''] \<noteq> []"
    by (simp add: demo_ui_sel demo_ui_def demo_start_def read_current_def bind_def on_page_def
          ret_def truthy_content_def)
  have path: "date_now (demo_ui opens content) (page s) - 1 \<le> MAX_TOTAL_MS \<and>
      ensureFileListVisible (demo_ui opens content) (page s) = (Inr True, Suc (page s)) \<and>
      title \<notin> processedTitles s \<and>
      openFileByTitle (demo_ui opens content) title (Suc (page s)) = (Inr True, Suc (Suc (page s))) \<and>
      select_code_tab (demo_ui opens content) (s\<lparr>page := Suc (Suc (page s))\<rparr>)
        = (Inr (), s\<lparr>page := Suc (Suc (Suc (page s)))\<rparr>) \<and>
      0 < MAX_TOTAL_MS - (date_now (demo_ui opens content) (Suc (Suc (Suc (page s)))) - 1) \<and>
      waitFor_content (demo_ui opens content) title
        (min 8000 (MAX_TOTAL_MS - (date_now (demo_ui opens content) (Suc (Suc (Suc (page s)))) - 1))) 200
        (Suc (Suc (Suc (page s)))) = (Inr (content title), Suc (Suc (Suc (Suc (page s)))))"
    if "page s \<le> 20" "title \<notin> processedTitles s" "opens title = Inr True"
    for opens content title and s :: "nat canvas_state"
    using that
    by (simp add: demo_ui_sel MAX_TOTAL_MS_def select_code_tab_def bind_def on_page_def ret_def)
  have a: "canvas_steps ?U 1 demo_start = canvas_loop ?U 1 [''a.js'', ''b.js'', ''c.js''] loop_entry"
    using content_failure_policy[where U = ?U and s = demo_start and totalStart = 1
        and titles = "[''a.js'', ''b.js'', ''c.js'']", THEN conjunct2, THEN conjunct2, THEN conjunct2,
        THEN conjunct1, rule_format, OF entry]
    by (simp add: demo_start_def loop_entry_def)
  have b: "canvas_loop ?U 1 [''a.js'', ''b.js'', ''c.js''] loop_entry =
     canvas_loop ?U 1 [''b.js'', ''c.js''] after_a"
    using content_failure_policy[where U = ?U and s = loop_entry and totalStart = 1 and title = "''a.js''"
        and rest = "[''b.js'', ''c.js'']", THEN conjunct1, rule_format,
        OF path[of loop_entry "''a.js''" all_open no_b_content],
        THEN conjunct2, THEN conjunct1, rule_format, of "no_b_content ''a.js''",
        THEN conjunct1, rule_format, of 10]
    by (simp add: demo_ui_sel loop_entry_def after_a_def all_open_def no_b_content_def
          truthy_content_def or_empty_def)
  have c: "canvas_loop ?U 1 [''b.js'', ''c.js''] after_a =
     canvas_loop ?U 1 [''c.js''] (after_a\<lparr>page := 15\<rparr>)"
    using content_failure_policy[where U = ?U and s = after_a and totalStart = 1 and title = "''b.js''"
        and rest = "[''c.js'']", THEN conjunct1, rule_format,
        OF path[of after_a "''b.js''" all_open no_b_content],
        THEN conjunct1, rule_format, of "no_b_content ''b.js''",
        THEN conjunct2, rule_format, THEN conjunct1, rule_format, of 15]
    by (simp add: demo_ui_sel after_a_def all_open_def no_b_content_def truthy_content_def)
  have d: "canvas_loop ?V 1 [''a.js'', ''b.js'', ''c.js''] loop_entry = (Inr (), loop_entry\<lparr>page := 9\<rparr>)"
    using content_failure_policy[where U = ?V and s = loop_entry and totalStart = 1 and title = "''a.js''"
        and rest = "[''b.js'', ''c.js'']", THEN conjunct1, rule_format,
        OF path[of loop_entry "''a.js''" all_open only_c_content],
        THEN conjunct1, rule_format, of "only_c_content ''a.js''",
        THEN conjunct1, rule_format]
    by (simp add: loop_entry_def all_open_def only_c_content_def truthy_content_def)
  have click: "date_now ?W (page loop_entry) - 1 \<le> MAX_TOTAL_MS \<and>
      ensureFileListVisible ?W (page loop_entry) = (Inr True, 6) \<and>
      ''a.js'' \<notin> processedTitles loop_entry \<and>
      openFileByTitle ?W ''a.js'' 6 = (Inr False, 7) \<and> (Inr False :: exn + bool) \<noteq> Inr True"
    by (simp add: demo_ui_sel loop_entry_def closed_a_def MAX_TOTAL_MS_def)
  have e: "canvas_loop ?W 1 [''a.js'', ''b.js'', ''c.js''] loop_entry =
     canvas_loop ?W 1 [''b.js'', ''c.js''] (loop_entry\<lparr>page := 7\<rparr>)"
    using content_failure_policy[where U = ?W and s = loop_entry and totalStart = 1 and title = "''a.js''"
        and rest = "[''b.js'', ''c.js'']", THEN conjunct2, THEN conjunct1, rule_format, OF click]
    by (simp add: demo_ui_sel)
  have f: "extractAllCanvasContent ?U 0 = (Inr [''## Canvas: a.js'', ''## Canvas: c.js''], 23)"
    by code_simp
  have g: "extractAllCanvasContent ?V 0 = (Inr [], 12)"
    by code_simp
  have h: "extractAllCanvasContent ?W 0 = (Inr [''## Canvas: b.js'', ''## Canvas: c.js''], 20)"
    by code_simp
  from a b c d e f g h show ?thesis by (intro conjI)
qed

subsection \<open>\<open>extractAllCanvasContent\<close>\<close>

text \<open>
  Claim C8. Once the snapshot is taken, the call is the \<open>try\<close> block followed by exactly
  one run of \<open>restoreUiState\<close> on the page the block left, and it returns the results
  the block had collected when it ended, be it normally, by a \<open>break\<close> or by an
  exception. No statement of the block removes a collected artifact: the results at
  any point are a prefix of the results returned.
\<close>

theorem restore_runs_once:
  "(\<forall>snap w1. captureUiState U w = (Inr snap, w1) \<longrightarrow>
      (\<exists>s1 w2.
         canvas_try U (date_now U w1)
           \<lparr> page = w1, results = [], processedTitles = {}, everOpenedEditor = False \<rparr> = (Inr (results s1), s1) \<and>
         restoreUiState U (Some snap) (page s1) = (Inr (), w2) \<and>
         extractAllCanvasContent U w = (Inr (results s1), w2))) \<and>
   (\<forall>r s'. canvas_steps U t s = (r, s') \<longrightarrow>
      prefix (results s) (results s') \<and>
      (\<exists>s''. canvas_try U t s = (Inr (results s'), s''))) \<and>
   (\<forall>r s'. canvas_loop U t titles s = (r, s') \<longrightarrow> r = Inr () \<and> prefix (results s) (results s')) \<and>
   (\<forall>r s'. canvas_round U t title s = (r, s') \<longrightarrow> (\<exists>fl. r = Inr fl) \<and> prefix (results s) (results s'))"
proof (intro conjI allI impI)
  fix snap w1
  assume cap: "captureUiState U w = (Inr snap, w1)"
  let ?s0 = "\<lparr> page = w1, results = [], processedTitles = {}, everOpenedEditor = False \<rparr>"
  obtain r s' where steps: "canvas_steps U (date_now U w1) ?s0 = (r, s')" by (cases "canvas_steps U (date_now U w1) ?s0")
  from canvas_try_returns[OF steps] obtain s1
    where tried: "canvas_try U (date_now U w1) ?s0 = (Inr (results s'), s1)" and same: "results s1 = results s'"
    by blast
  obtain w2 where restore: "restoreUiState U (Some snap) (page s1) = (Inr (), w2)"
    using restoreUiState_normal[of U "Some snap" "page s1"] by (elim exE)
  have "extractAllCanvasContent U w = (Inr (results s1), w2)"
    using cap tried restore same
    by (simp add: extractAllCanvasContent_def bind_def try_finally_def on_page_def Let_def)
  with tried restore same
  show "\<exists>s1 w2.
         canvas_try U (date_now U w1) ?s0 = (Inr (results s1), s1) \<and>
         restoreUiState U (Some snap) (page s1) = (Inr (), w2) \<and>
         extractAllCanvasContent U w = (Inr (results s1), w2)"
    by auto
next
  fix r s' assume "canvas_steps U t s = (r, s')"
  then show "prefix (results s) (results s')" using grows_steps growsD by blast
next
  fix r s' assume "canvas_steps U t s = (r, s')"
  then show "\<exists>s''. canvas_try U t s = (Inr (results s'), s'')" using canvas_try_returns by blast
next
  fix r s' assume a: "canvas_loop U t titles s = (r, s')"
  then show "r = Inr ()" using canvas_loop_returns[of U t titles s] by auto
  from a show "prefix (results s) (results s')" using grows_loop growsD by blast
next
  fix r s' assume a: "canvas_round U t title s = (r, s')"
  then show "\<exists>fl. r = Inr fl" using canvas_round_returns[of U t title s] by auto
  from a show "prefix (results s) (results s')" using grows_round growsD by blast
qed

theorem restore_runs_once_witness:
  "captureUiState (demo_ui detached_b all_content) 0 = (Inr demo_snapshot, 1) \<and>
   (\<exists>s1 w2.
      canvas_try (demo_ui detached_b all_content) 1
        \<lparr> page = 1, results = [], processedTitles = {}, everOpenedEditor = False \<rparr> = (Inr (results s1), s1) \<and>
      restoreUiState (demo_ui detached_b all_content) (Some demo_snapshot) (page s1) = (Inr (), w2) \<and>
      extractAllCanvasContent (demo_ui detached_b all_content) 0 = (Inr (results s1), w2)) \<and>
   extractAllCanvasContent (demo_ui detached_b all_content) 0 =
     (Inr [''## Canvas: a.js'', ''## Canvas: c.js''], 20)"
proof -
  have cap: "captureUiState (demo_ui detached_b all_content) 0 = (Inr demo_snapshot, 1)"
    by (simp add: demo_ui_sel)
  have run: "extractAllCanvasContent (demo_ui detached_b all_content) 0 =
     (Inr [''## Canvas: a.js'', ''## Canvas: c.js''], 20)"
    by code_simp
  from restore_runs_once[of "demo_ui detached_b all_content" 0, THEN conjunct1, rule_format, OF cap]
  show ?thesis using cap run by (simp add: demo_ui_sel)
qed

section \<open>The collected turns\<close>

lemma precedes_irrefl: "\<not> precedes a a"
  by (induction a) auto

lemma precedes_trans: "precedes a b \<Longrightarrow> precedes b c \<Longrightarrow> precedes a c"
proof (induction a b arbitrary: c rule: precedes.induct)
  case 1 then show ?case by simp
next
  case (2 y ys) then show ?case by (cases c) auto
next
  case (3 x xs) then show ?case by simp
next
  case (4 x xs y ys)
  then show ?case by (cases c) auto
qed

lemma precedes_total: "a \<noteq> b \<Longrightarrow> precedes a b \<or> precedes b a"
  by (induction a b rule: precedes.induct) auto

lemma precedes_asym: "precedes a b \<Longrightarrow> \<not> precedes b a"
  using precedes_trans precedes_irrefl by blast

lemma strict_prefix_precedes: "strict_prefix a b \<Longrightarrow> precedes a b"
proof (induction a b rule: precedes.induct)
  case 1 then show ?case by simp
next
  case (2 y ys) then show ?case by simp
next
  case (3 x xs) then show ?case by simp
next
  case (4 x xs y ys)
  then show ?case by (auto simp: strict_prefix_def)
qed

lemma precedes_diverge:
  "prefix (p @ [i]) a \<Longrightarrow> prefix (p @ [j]) b \<Longrightarrow> i < j \<Longrightarrow> precedes a b"
proof (induction p arbitrary: a b)
  case Nil
  then show ?case by (auto simp: prefix_def)
next
  case (Cons x p)
  from Cons.prems(1) obtain a' where a: "a = x # a'" "prefix (p @ [i]) a'"
    by (auto simp: prefix_def)
  from Cons.prems(2) obtain b' where b: "b = x # b'" "prefix (p @ [j]) b'"
    by (auto simp: prefix_def)
  from Cons.IH[OF a(2) b(2) Cons.prems(3)] a b show ?case by simp
qed

lemma subtree_sorted:
  "sorted_wrt precedes (map fst (subtree p n)) \<and> (\<forall>e\<in>set (subtree p n). prefix p (fst e))"
  "sorted_wrt precedes (map fst (subtrees p i ks)) \<and>
   (\<forall>e\<in>set (subtrees p i ks). \<exists>j\<ge>i. prefix (p @ [j]) (fst e))"
proof (induction p n and p i ks rule: subtree_subtrees.induct)
  case (1 p t as ks)
  have "\<forall>e\<in>set (subtrees p 0 ks). precedes p (fst e)"
  proof
    fix e assume "e \<in> set (subtrees p 0 ks)"
    with 1 obtain j where "prefix (p @ [j]) (fst e)" by blast
    then have "strict_prefix p (fst e)" by (auto simp: prefix_def strict_prefix_def)
    then show "precedes p (fst e)" by (rule strict_prefix_precedes)
  qed
  moreover have "\<forall>e\<in>set (subtrees p 0 ks). prefix p (fst e)"
    using 1 by (metis append_prefixD)
  ultimately show ?case using 1 by auto
next
  case (2 p s) show ?case by simp
next
  case (3 p) show ?case by simp
next
  case (4 p i) show ?case by simp
next
  case (5 p i k ks)
  have cross: "\<forall>x\<in>set (subtree (p @ [i]) k). \<forall>y\<in>set (subtrees p (Suc i) ks). precedes (fst x) (fst y)"
  proof (intro ballI)
    fix x y assume x: "x \<in> set (subtree (p @ [i]) k)" and y: "y \<in> set (subtrees p (Suc i) ks)"
    from x 5 have px: "prefix (p @ [i]) (fst x)" by blast
    from y 5 obtain j where "Suc i \<le> j" "prefix (p @ [j]) (fst y)" by blast
    with px show "precedes (fst x) (fst y)" using precedes_diverge[of p i "fst x" j "fst y"] by simp
  qed
  have sorted: "sorted_wrt precedes (map fst (subtrees p i (k # ks)))"
    using 5 cross by (simp add: sorted_wrt_append)
  have pre: "\<forall>e\<in>set (subtrees p i (k # ks)). \<exists>j\<ge>i. prefix (p @ [j]) (fst e)"
  proof
    fix e assume "e \<in> set (subtrees p i (k # ks))"
    then consider "e \<in> set (subtree (p @ [i]) k)" | "e \<in> set (subtrees p (Suc i) ks)" by auto
    then show "\<exists>j\<ge>i. prefix (p @ [j]) (fst e)"
    proof cases
      case 1 with 5 show ?thesis by blast
    next
      case 2
      with 5 obtain j where "Suc i \<le> j" "prefix (p @ [j]) (fst e)" by blast
      then show ?thesis by (intro exI[of _ j]) simp
    qed
  qed
  from sorted pre show ?case by simp
qed

lemma sorted_wrt_map_filter:
  "sorted_wrt R (map f xs) \<Longrightarrow> sorted_wrt R (map f (filter P xs))"
  by (induction xs) auto

lemma querySelectorAll_sorted: "sorted_wrt precedes (map fst (querySelectorAll el sels))"
  unfolding querySelectorAll_def using subtree_sorted(2) by (intro sorted_wrt_map_filter) blast

lemma turnCandidates_sorted: "sorted_wrt precedes (map fst (turnCandidates searchRoot))"
  unfolding turnCandidates_def Let_def
  by (auto intro: sorted_wrt_map_filter querySelectorAll_sorted)

lemma sorted_precedes_distinct: "sorted_wrt precedes ps \<Longrightarrow> distinct ps"
  by (induction ps) (auto simp: precedes_irrefl)


lemma uniqueElements_loop_distinct:
  "distinct (map fst els) \<Longrightarrow> fst ` set els \<inter> seen = {} \<Longrightarrow>
   uniqueElements_loop els out seen = out @ els"
proof (induction els arbitrary: out seen)
  case Nil then show ?case by simp
next
  case (Cons el els)
  from Cons.prems have "fst el \<notin> seen" by auto
  moreover from Cons.prems have "fst ` set els \<inter> insert (fst el) seen = {}" by auto
  moreover from Cons.prems have "distinct (map fst els)" by simp
  ultimately show ?case using Cons.IH[of "insert (fst el) seen" "out @ [el]"] by simp
qed

lemma uniqueElements_distinct: "distinct (map fst els) \<Longrightarrow> uniqueElements els = els"
  by (simp add: uniqueElements_def uniqueElements_loop_distinct)

lemma compareDomOrder_after: "precedes (fst b) (fst a) \<Longrightarrow> compareDomOrder a b = 1"
proof -
  assume p: "precedes (fst b) (fst a)"
  then have ne: "fst a \<noteq> fst b" using precedes_irrefl by auto
  from p have np: "\<not> precedes (fst a) (fst b)" by (rule precedes_asym)
  then have "\<not> strict_prefix (fst a) (fst b)" using strict_prefix_precedes by blast
  with ne np show ?thesis
    by (simp add: compareDomOrder_def compareDocumentPosition_def Let_def)
qed

lemma compareDomOrder_before: "precedes (fst a) (fst b) \<Longrightarrow> compareDomOrder a b = - 1"
proof -
  assume p: "precedes (fst a) (fst b)"
  then have ne: "fst a \<noteq> fst b" using precedes_irrefl by auto
  from p have "\<not> precedes (fst b) (fst a)" by (rule precedes_asym)
  then have "\<not> strict_prefix (fst b) (fst a)" using strict_prefix_precedes by blast
  with ne p show ?thesis
    by (simp add: compareDomOrder_def compareDocumentPosition_def Let_def)
qed

lemma insert_by_last:
  "\<forall>y\<in>set acc. precedes (fst y) (fst x) \<Longrightarrow> insert_by compareDomOrder x acc = acc @ [x]"
  by (induction acc) (auto simp: compareDomOrder_after)

lemma sort_by_loop_sorted:
  "sorted_wrt precedes (map fst (acc @ xs)) \<Longrightarrow>
   foldl (\<lambda>acc x. insert_by compareDomOrder x acc) acc xs = acc @ xs"
proof (induction xs arbitrary: acc)
  case Nil then show ?case by simp
next
  case (Cons x xs)
  from Cons.prems have "\<forall>y\<in>set acc. precedes (fst y) (fst x)"
    by (auto simp: sorted_wrt_append)
  then have "insert_by compareDomOrder x acc = acc @ [x]" by (rule insert_by_last)
  moreover from Cons.prems have "sorted_wrt precedes (map fst ((acc @ [x]) @ xs))" by simp
  ultimately show ?case using Cons.IH[of "acc @ [x]"] by simp
qed

lemma sort_by_sorted: "sorted_wrt precedes (map fst xs) \<Longrightarrow> sort_by compareDomOrder xs = xs"
  using sort_by_loop_sorted[of "[]" xs] by (simp add: sort_by_def)

lemma covered_by_outermost:
  assumes "d \<in> set cands" and "strict_prefix (fst d) (fst c)"
  shows "\<exists>d'\<in>set cands. outermost cands d' \<and> strict_prefix (fst d') (fst c)"
  using assms
proof (induction "length (fst d)" arbitrary: d rule: less_induct)
  case less
  show ?case
  proof (cases "outermost cands d")
    case True with less.prems show ?thesis by blast
  next
    case False
    then obtain d2 where d2: "d2 \<in> set cands" "strict_prefix (fst d2) (fst d)"
      by (auto simp: outermost_def)
    then have "length (fst d2) < length (fst d)"
      by (metis prefix_length_less)
    moreover from d2(2) less.prems(2) have "strict_prefix (fst d2) (fst c)"
      using prefix_order.less_trans by blast
    ultimately show ?thesis using less.hyps d2(1) by blast
  qed
qed

lemma remove_loop_outermost:
  assumes "sorted_wrt precedes (map fst (before @ els))"
    and "out = filter (outermost (before @ els)) before"
  shows "removeContainedElements_loop els out = filter (outermost (before @ els)) (before @ els)"
  using assms
proof (induction els arbitrary: before out)
  case Nil then show ?case by simp
next
  case (Cons el els)
  let ?all = "before @ el # els"
  have dist: "distinct (map fst ?all)" using Cons.prems(1) by (rule sorted_precedes_distinct)
  have covered: "list_ex (\<lambda>prev. contains prev el) out \<longleftrightarrow> \<not> outermost ?all el"
  proof
    assume "list_ex (\<lambda>prev. contains prev el) out"
    then obtain prev where prev: "prev \<in> set out" "prefix (fst prev) (fst el)"
      by (auto simp: list_ex_iff contains_def)
    with Cons.prems(2) have in_done: "prev \<in> set before" by simp
    with dist have "fst prev \<noteq> fst el" by (auto simp: image_iff)
    with prev(2) have "strict_prefix (fst prev) (fst el)" by (simp add: strict_prefix_def)
    with in_done show "\<not> outermost ?all el" by (auto simp: outermost_def)
  next
    assume "\<not> outermost ?all el"
    then obtain d where "d \<in> set ?all" "strict_prefix (fst d) (fst el)"
      by (auto simp: outermost_def)
    from covered_by_outermost[OF this] obtain d' where
      d': "d' \<in> set ?all" "outermost ?all d'" "strict_prefix (fst d') (fst el)" by blast
    have "d' \<in> set before"
    proof (rule ccontr)
      assume "d' \<notin> set before"
      with d'(1) consider "d' = el" | "d' \<in> set els" by auto
      then show False
      proof cases
        case 1 with d'(3) show False by simp
      next
        case 2
        with Cons.prems(1) have "precedes (fst el) (fst d')" by (auto simp: sorted_wrt_append)
        moreover from d'(3) have "precedes (fst d') (fst el)" by (rule strict_prefix_precedes)
        ultimately show False using precedes_asym by blast
      qed
    qed
    with d'(2) Cons.prems(2) have "d' \<in> set out" by simp
    moreover from d'(3) have "contains d' el" by (simp add: contains_def strict_prefix_def)
    ultimately show "list_ex (\<lambda>prev. contains prev el) out" by (auto simp: list_ex_iff)
  qed
  have sorted': "sorted_wrt precedes (map fst ((before @ [el]) @ els))" using Cons.prems(1) by simp
  show ?case
  proof (cases "outermost ?all el")
    case True
    have "out @ [el] = filter (outermost ((before @ [el]) @ els)) (before @ [el])"
      using True Cons.prems(2) by simp
    from Cons.IH[OF sorted' this] covered True show ?thesis by simp
  next
    case False
    have "out = filter (outermost ((before @ [el]) @ els)) (before @ [el])"
      using False Cons.prems(2) by simp
    from Cons.IH[OF sorted' this] covered False show ?thesis by simp
  qed
qed

lemma removeContainedElements_outermost:
  "sorted_wrt precedes (map fst els) \<Longrightarrow> removeContainedElements els = filter (outermost els) els"
  using remove_loop_outermost[of "[]" els "[]"] by (simp add: removeContainedElements_def)

lemma collect_eq:
  "collectConversationNodes searchRoot =
     filter (outermost (turnCandidates searchRoot)) (turnCandidates searchRoot)"
proof -
  have s: "sorted_wrt precedes (map fst (turnCandidates searchRoot))" by (rule turnCandidates_sorted)
  then have "distinct (map fst (turnCandidates searchRoot))" by (rule sorted_precedes_distinct)
  then show ?thesis
    using s by (simp add: collectConversationNodes_def uniqueElements_distinct sort_by_sorted
        removeContainedElements_outermost)
qed

text \<open>
  Claim C5, as amended. The nodes returned are the candidates that no other candidate
  contains, in document order and without repetition; so no returned node lies below
  another returned node. For two candidates where \<open>A\<close> properly contains \<open>B\<close>, \<open>B\<close> is not
  returned, and \<open>A\<close> is returned exactly when no candidate properly contains \<open>A\<close>.
\<close>

theorem collect_keeps_outermost:
  "collectConversationNodes searchRoot =
     filter (\<lambda>c. \<not> (\<exists>d\<in>set (turnCandidates searchRoot). strict_prefix (fst d) (fst c)))
       (turnCandidates searchRoot) \<and>
   sorted_wrt precedes (map fst (collectConversationNodes searchRoot)) \<and>
   distinct (map fst (collectConversationNodes searchRoot)) \<and>
   (\<forall>a\<in>set (collectConversationNodes searchRoot). \<forall>b\<in>set (collectConversationNodes searchRoot).
      contains a b \<longrightarrow> fst a = fst b) \<and>
   (\<forall>a\<in>set (turnCandidates searchRoot). \<forall>b\<in>set (turnCandidates searchRoot).
      strict_prefix (fst a) (fst b) \<longrightarrow>
        b \<notin> set (collectConversationNodes searchRoot) \<and>
        (a \<in> set (collectConversationNodes searchRoot) \<longleftrightarrow>
           \<not> (\<exists>d\<in>set (turnCandidates searchRoot). strict_prefix (fst d) (fst a))))"
proof -
  let ?cands = "turnCandidates searchRoot"
  let ?res = "collectConversationNodes searchRoot"
  have eq: "?res = filter (\<lambda>c. \<not> (\<exists>d\<in>set ?cands. strict_prefix (fst d) (fst c))) ?cands"
    using collect_eq[of searchRoot] by (simp add: outermost_def[abs_def])
  have sorted: "sorted_wrt precedes (map fst ?res)"
    unfolding eq by (intro sorted_wrt_map_filter turnCandidates_sorted)
  then have dist: "distinct (map fst ?res)" by (rule sorted_precedes_distinct)
  have apart: "\<forall>a\<in>set ?res. \<forall>b\<in>set ?res. contains a b \<longrightarrow> fst a = fst b"
  proof (intro ballI impI, rule ccontr)
    fix a b assume a: "a \<in> set ?res" and b: "b \<in> set ?res" and c: "contains a b" and ne: "fst a \<noteq> fst b"
    from c ne have "strict_prefix (fst a) (fst b)" by (simp add: contains_def strict_prefix_def)
    moreover from a have "a \<in> set ?cands" by (subst (asm) eq) simp
    moreover from b have "\<not> (\<exists>d\<in>set ?cands. strict_prefix (fst d) (fst b))" by (subst (asm) eq) simp
    ultimately show False by blast
  qed
  have pairs: "\<forall>a\<in>set ?cands. \<forall>b\<in>set ?cands. strict_prefix (fst a) (fst b) \<longrightarrow>
        b \<notin> set ?res \<and> (a \<in> set ?res \<longleftrightarrow> \<not> (\<exists>d\<in>set ?cands. strict_prefix (fst d) (fst a)))"
    by (subst eq, subst eq) auto
  from eq sorted dist apart pairs show ?thesis by blast
qed

theorem collect_keeps_outermost_witness:
  "map fst (turnCandidates nested_turns) = [[0], [0, 0], [0, 0, 0], [1]] \<and>
   map fst (collectConversationNodes nested_turns) = [[0], [1]] \<and>
   ([0, 0, 0], inner_span) \<notin> set (collectConversationNodes nested_turns) \<and>
   ([0, 0], inner_div) \<notin> set (collectConversationNodes nested_turns)"
proof -
  have cands: "turnCandidates nested_turns =
      [([0], Element ''user-query'' [] [inner_div]), ([0, 0], inner_div), ([0, 0, 0], inner_span),
       ([1], Element ''model-response'' [] [Element ''p'' [] [Text ''Hi there'']])]"
    by code_simp
  from collect_keeps_outermost[of nested_turns]
  have "collectConversationNodes nested_turns =
     filter (\<lambda>c. \<not> (\<exists>d\<in>set (turnCandidates nested_turns). strict_prefix (fst d) (fst c)))
       (turnCandidates nested_turns)"
    by blast
  then have "collectConversationNodes nested_turns =
      [([0], Element ''user-query'' [] [inner_div]),
       ([1], Element ''model-response'' [] [Element ''p'' [] [Text ''Hi there'']])]"
    by (simp add: cands strict_prefix_def)
  with cands show ?thesis by simp
qed

text \<open>
  The claim as stated fails for three nested candidates: the middle one contains the
  innermost, both match a role selector, and the middle one is not returned.
\<close>

theorem collect_returns_container_counterexample:
  "([0, 0], inner_div) \<in> set (turnCandidates nested_turns) \<and>
   ([0, 0, 0], inner_span) \<in> set (turnCandidates nested_turns) \<and>
   matches_any (userSelectors @ modelSelectors) inner_div \<and>
   matches_any (userSelectors @ modelSelectors) inner_span \<and>
   contains ([0, 0], inner_div) ([0, 0, 0], inner_span) \<and>
   ([0, 0], inner_div) \<notin> set (collectConversationNodes nested_turns)"
  by code_simp

section \<open>The renderer\<close>

subsection \<open>Code blocks\<close>

lemma kind_of_simps:
  "kind_of ''a'' = Link" "kind_of ''img'' = Img" "kind_of ''pre'' = Pre" "kind_of ''code'' = Code"
  by (simp_all add: kind_of_def)

lemma convertNode_pre:
  "convertNode B (Element ''pre'' as ks) c =
     (let code = (case querySelector ([], Element ''pre'' as ks) [Tag ''code''] of
                    Some ce \<Rightarrow> textContent (snd ce)
                  | None \<Rightarrow> textContent (Element ''pre'' as ks));
          normalized = normalizeCode code;
          lang = detectLanguage ([], Element ''pre'' as ks) (querySelector ([], Element ''pre'' as ks) [Tag ''code''])
      in if trim normalized = [] then []
         else [LF] @ makeFence normalized @ lang @ [LF] @ normalized @ [LF] @ makeFence normalized @ [LF, LF])"
  by (simp add: kind_of_simps convertPre_def Let_def split: option.splits)

lemma convertNode_code:
  "convertNode B (Element ''code'' as ks) c =
     (let text = trim (collapse_spaces (textContent (Element ''code'' as ks)))
      in if text = [] then [] else makeInlineFence text @ text @ makeInlineFence text)"
  by (simp add: kind_of_simps convertInlineCode_def Let_def)


text \<open>
  Claim C1. Let \<open>k\<close> be the length of the longest run of backticks in the code: a run
  of \<open>k\<close> backticks occurs in it and no run of \<open>k + 1\<close> does. The block fence is
  then \<open>k + 1\<close> backticks with a minimum of three, that is \<open>max 3 (k + 1)\<close> backticks;
  the inline fence is computed the same way with a minimum of one, that is \<open>k + 1\<close>
  backticks; and neither fence occurs inside the text it was computed from. A \<open>pre\<close>
  element is rendered as its normalised code between two copies of the block fence of
  that code, and a \<open>code\<close> element as its text between two copies of its inline fence.
\<close>

theorem fence_safety:
  assumes "sublist (replicate k TICK) code" and "\<not> sublist (replicate (Suc k) TICK) code"
  shows "makeFence code = replicate (max 3 (k + 1)) TICK \<and>
         3 \<le> length (makeFence code) \<and> k + 1 \<le> length (makeFence code) \<and>
         \<not> sublist (makeFence code) code \<and>
         makeInlineFence code = replicate (k + 1) TICK \<and>
         \<not> sublist (makeInlineFence code) code \<and>
         convertNode B (Element ''pre'' as ks) c =
           (let code = (case querySelector ([], Element ''pre'' as ks) [Tag ''code''] of
                          Some ce \<Rightarrow> textContent (snd ce)
                        | None \<Rightarrow> textContent (Element ''pre'' as ks));
                normalized = normalizeCode code;
                lang = detectLanguage ([], Element ''pre'' as ks)
                         (querySelector ([], Element ''pre'' as ks) [Tag ''code''])
            in if trim normalized = [] then []
               else [LF] @ makeFence normalized @ lang @ [LF] @ normalized @ [LF] @
                    makeFence normalized @ [LF, LF]) \<and>
         convertNode B (Element ''code'' as ks) c =
           (let text = trim (collapse_spaces (textContent (Element ''code'' as ks)))
            in if text = [] then [] else makeInlineFence text @ text @ makeInlineFence text)"
proof -
  have mx: "foldl (\<lambda>m s. max m (length s)) 0 (tick_runs code) = k"
    using assms by (rule longest_run_eq)
  have block: "makeFence code = replicate (max 3 (k + 1)) TICK"
    by (simp add: makeFence_def Let_def mx)
  have inline: "makeInlineFence code = replicate (k + 1) TICK"
    by (simp add: makeInlineFence_def Let_def mx)
  have no_block: "\<not> sublist (makeFence code) code"
  proof
    assume "sublist (makeFence code) code"
    then have "max 3 (k + 1) \<le> foldl (\<lambda>m s. max m (length s)) 0 (tick_runs code)"
      unfolding block by (rule longest_run_upper)
    with mx show False by simp
  qed
  have no_inline: "\<not> sublist (makeInlineFence code) code"
  proof
    assume "sublist (makeInlineFence code) code"
    then have "k + 1 \<le> foldl (\<lambda>m s. max m (length s)) 0 (tick_runs code)"
      unfolding inline by (rule longest_run_upper)
    with mx show False by simp
  qed
  from block inline no_block no_inline convertNode_pre[of B as ks c] convertNode_code[of B as ks c]
  show ?thesis by simp
qed

theorem fence_safety_witness:
  "makeFence ''a``b'' = ''```'' \<and> \<not> sublist (makeFence ''a``b'') ''a``b'' \<and>
   makeInlineFence ''a``b'' = ''```'' \<and> \<not> sublist (makeInlineFence ''a``b'') ''a``b'' \<and>
   convertNode bare_browser (Element ''pre'' [] [Text ''a``b'']) top_ctx =
     [LF] @ ''```'' @ [LF] @ ''a``b'' @ [LF] @ ''```'' @ [LF, LF]"
proof -
  have run: "sublist (replicate 2 TICK) ''a``b''"
    by (simp add: sublist_Cons_right prefix_Cons numeral_2_eq_2)
  have longest: "\<not> sublist (replicate (Suc 2) TICK) ''a``b''"
    by (simp add: sublist_Cons_right prefix_Cons numeral_2_eq_2)
  have rendered: "convertNode bare_browser (Element ''pre'' [] [Text ''a``b'']) top_ctx =
     [LF] @ ''```'' @ [LF] @ ''a``b'' @ [LF] @ ''```'' @ [LF, LF]"
    by code_simp
  from fence_safety[OF run longest, of bare_browser "[]" "[]" top_ctx] rendered show ?thesis
    by (auto simp: numeral_3_eq_3)
qed

subsection \<open>Links and images\<close>

text \<open>
  Claim C10. \<open>toAbsoluteUrl\<close> returns a string for every \<open>href\<close>: the serialised URL
  when the \<open>URL\<close> constructor accepts it, and the \<open>href\<close> unchanged when the constructor
  throws. A link and an image are therefore rendered whatever the constructor does.
\<close>

theorem toAbsoluteUrl_total:
  "(\<forall>e. new_URL B href (location_href B) = Inl e \<longrightarrow> toAbsoluteUrl B href = href) \<and>
   (\<forall>url. new_URL B href (location_href B) = Inr url \<longrightarrow> toAbsoluteUrl B href = url) \<and>
   convertNode B (Element ''a'' as ks) c =
     (let href = or_empty (getAttribute (Element ''a'' as ks) ''href'');
          text = str_or (trim (cleanupMarkdownInline (convertChildren B ks c))) href
      in if href = [] \<or> startsWith href ''javascript:'' then text
         else ''['' @ text @ '']('' @ toAbsoluteUrl B href @ '')'') \<and>
   convertNode B (Element ''img'' as ks) c =
     (let src = or_empty (getAttribute (Element ''img'' as ks) ''src'')
      in if src = [] \<or> startsWith src ''data:'' then []
         else ''!['' @ trim (case or_else (getAttribute (Element ''img'' as ks) ''alt'') (Some ''image'') of
                                 Some a \<Rightarrow> a | None \<Rightarrow> [])
              @ '']('' @ toAbsoluteUrl B src @ '')'')"
  by (simp add: toAbsoluteUrl_def kind_of_simps convertLink_def convertImg_def Let_def)

theorem toAbsoluteUrl_total_witness:
  "new_URL bare_browser ''http://['' (location_href bare_browser) = Inl (JsError ''Invalid URL'') \<and>
   toAbsoluteUrl bare_browser ''http://['' = ''http://['' \<and>
   convertNode bare_browser (Element ''a'' [(''href'', ''http://['')] [Text ''link'']) top_ctx
     = ''[link](http://[)'' \<and>
   convertNode bare_browser (Element ''img'' [(''src'', ''http://['')] []) top_ctx
     = ''![image](http://[)''"
proof -
  have bad: "new_URL bare_browser ''http://['' (location_href bare_browser) = Inl (JsError ''Invalid URL'')"
    by (simp add: bare_browser_def)
  from toAbsoluteUrl_total[of bare_browser "''http://[''"] bad
  have same: "toAbsoluteUrl bare_browser ''http://['' = ''http://[''" by blast
  have link: "convertNode bare_browser (Element ''a'' [(''href'', ''http://['')] [Text ''link'']) top_ctx
     = ''[link](http://[)''"
    by code_simp
  have img: "convertNode bare_browser (Element ''img'' [(''src'', ''http://['')] []) top_ctx
     = ''![image](http://[)''"
    by code_simp
  from bad same link img show ?thesis by simp
qed

subsection \<open>Lists\<close>

lemma concat_replicate_two_spaces: "concat (replicate n ''  '') = replicate (2 * n) SP"
  by (induction n) auto

lemma trimEnd_snoc_space: "is_space c \<Longrightarrow> trimEnd (ys @ [c]) = trimEnd ys"
  by (simp add: trimEnd_def)

lemma trimEnd_append_text: "s \<noteq> [] \<Longrightarrow> \<not> is_space (last s) \<Longrightarrow> trimEnd (xs @ s) = xs @ s"
  by (rule trimEnd_id) simp

lemma digits_nonempty: "digits n \<noteq> []"
  by (subst digits.simps) simp

lemma headLine_shape:
  assumes own: "text = trim x"
    and b: "b \<noteq> []" "\<not> is_space (last b)"
  shows "trimEnd (indent @ (b @ '' '') @ text) = indent @ b @ (if text = [] then [] else SP # text)"
proof (cases "text = []")
  case True
  have "trimEnd ((indent @ b) @ [SP]) = trimEnd (indent @ b)"
    by (rule trimEnd_snoc_space) (simp add: is_space_def)
  also have "\<dots> = indent @ b" using b by (rule trimEnd_append_text)
  finally show ?thesis using True by simp
next
  case False
  then have "\<not> is_space (last text)" unfolding own by (rule trim_last)
  with False have "trimEnd ((indent @ b @ '' '') @ text) = (indent @ b @ '' '') @ text"
    by (rule trimEnd_append_text)
  with False show ?thesis by simp
qed

lemma headLine_eq:
  "trimEnd (concat (replicate (d - 1) ''  '') @ (if ordered then digits i @ ''. '' else ''- '') @ trim x) =
   replicate (2 * (d - 1)) SP @ (if ordered then digits i @ ''.'' else ''-'') @
     (if trim x = [] then [] else SP # trim x)"
proof (cases ordered)
  case True
  have "trimEnd (replicate (2 * (d - 1)) SP @ ((digits i @ ''.'') @ '' '') @ trim x) =
        replicate (2 * (d - 1)) SP @ (digits i @ ''.'') @ (if trim x = [] then [] else SP # trim x)"
    by (rule headLine_shape[OF refl]) (simp_all add: is_space_def)
  with True show ?thesis by (simp add: concat_replicate_two_spaces)
next
  case False
  have "trimEnd (replicate (2 * (d - 1)) SP @ (''-'' @ '' '') @ trim x) =
        replicate (2 * (d - 1)) SP @ ''-'' @ (if trim x = [] then [] else SP # trim x)"
    by (rule headLine_shape[OF refl]) (simp_all add: is_space_def)
  with False show ?thesis by (simp add: concat_replicate_two_spaces)
qed

lemma convertListItem_shape:
  "convertListItem B (Element t as ks) c =
     (let text = trim (strip_space_before_nl (cleanupMarkdownInline (concat (convertItemParts B ks c))));
          indent = replicate (2 * (listDepth c - 1)) SP;
          marker = (if listOrdered c then digits (listIndex c) @ ''.'' else ''-'');
          headLine = indent @ marker @ (if text = [] then [] else SP # text);
          nestedMd = join [LF] (filter (\<lambda>s. s \<noteq> []) (convertNestedLists B ks c))
      in if nestedMd = [] then headLine else headLine @ [LF] @ nestedMd)"
  unfolding convertListItem.simps Let_def headLine_eq ..

lemma convertListItems_numbering:
  "convertListItems B ks c isOrdered i =
     map (\<lambda>(j, li). convertListItem B li
            (c\<lparr>listDepth := listDepth c + 1, listOrdered := isOrdered, listIndex := j\<rparr>))
       (zip [i ..< i + length (filter is_li ks)] (filter is_li ks))"
proof (induction ks arbitrary: i)
  case Nil show ?case by simp
next
  case (Cons k ks)
  show ?case
  proof (cases "is_li k")
    case False with Cons show ?thesis by simp
  next
    case True
    have "[i ..< i + Suc (length (filter is_li ks))] = i # [Suc i ..< Suc i + length (filter is_li ks)]"
      by (subst upt_rec) simp
    with True Cons[of "Suc i"] show ?thesis by simp
  qed
qed

lemma convertNestedLists_map:
  "convertNestedLists B ks c = map (\<lambda>nl. trimEnd (convertList B nl c)) (filter is_list_element ks)"
  by (induction ks) simp_all

lemma convertItemParts_map:
  "convertItemParts B ks c = map (\<lambda>k. convertNode B k c) (filter (\<lambda>k. \<not> is_list_element k) ks)"
  by (induction ks) simp_all

text \<open>
  Claim C9, as amended. A list item at depth \<open>d\<close> is rendered as \<open>2 * (d - 1)\<close> spaces, the
  marker (\<open>-\<close>, or the item's number and a full stop in an ordered list), and then, when
  the item has text of its own, one space and that text; an item without text of its
  own is the indentation and the bare marker, since the head line is trimmed at its
  end. The nested lists of the item follow on the next lines, each rendered one level
  deeper. The items of a list are numbered 1, 2, ... in the order met, counting only
  the \<open>li\<close> children of that list, and each nested list starts again at 1.
\<close>

theorem list_rendering:
  "convertListItem B (Element t as ks) c =
     (let text = trim (strip_space_before_nl (cleanupMarkdownInline (concat (convertItemParts B ks c))));
          indent = replicate (2 * (listDepth c - 1)) SP;
          marker = (if listOrdered c then digits (listIndex c) @ ''.'' else ''-'');
          headLine = indent @ marker @ (if text = [] then [] else SP # text);
          nestedMd = join [LF] (filter (\<lambda>s. s \<noteq> []) (convertNestedLists B ks c))
      in if nestedMd = [] then headLine else headLine @ [LF] @ nestedMd) \<and>
   convertItemParts B ks c = map (\<lambda>k. convertNode B k c) (filter (\<lambda>k. \<not> is_list_element k) ks) \<and>
   convertNestedLists B ks c = map (\<lambda>nl. trimEnd (convertList B nl c)) (filter is_list_element ks) \<and>
   convertList B (Element t as ks) c =
     (let lines = convertListItems B ks c (t = ''ol'') 1
      in if lines = [] then [] else join [LF] lines @ [LF, LF]) \<and>
   convertListItems B ks c isOrdered i =
     map (\<lambda>(j, li). convertListItem B li
            (c\<lparr>listDepth := listDepth c + 1, listOrdered := isOrdered, listIndex := j\<rparr>))
       (zip [i ..< i + length (filter is_li ks)] (filter is_li ks))"
  using convertListItem_shape[of B t as ks c] convertItemParts_map[of B ks c]
    convertNestedLists_map[of B ks c] convertListItems_numbering[of B ks c isOrdered i]
  by (simp add: Let_def)

lemma two_level_unordered_example:
  "convertNode bare_browser (two_level_list ''ul'') top_ctx =
   ''- a'' @ [LF] @ ''  - b'' @ [LF] @ ''  - c'' @ [LF] @ ''- d'' @ [LF, LF]"
  by code_simp

lemma two_level_ordered_example:
  "convertNode bare_browser (two_level_list ''ol'') top_ctx =
   ''1. a'' @ [LF] @ ''  1. b'' @ [LF] @ ''  2. c'' @ [LF] @ ''2. d'' @ [LF, LF]"
  by code_simp

theorem list_rendering_witness:
  "convertListItem bare_browser (Element ''li'' [] [Text ''b'']) (top_ctx\<lparr>listDepth := 2\<rparr>) = ''  - b'' \<and>
   convertListItem bare_browser (Element ''li'' [] [Text ''b''])
     (top_ctx\<lparr>listDepth := 2, listOrdered := True, listIndex := 12\<rparr>) = ''  12. b'' \<and>
   convertListItems bare_browser [Element ''li'' [] [Text ''b''], Text ''  '', Element ''li'' [] [Text ''c'']]
     (top_ctx\<lparr>listDepth := 1\<rparr>) True 1 = [''  1. b'', ''  2. c'']"
proof -
  have a: "convertListItem bare_browser (Element ''li'' [] [Text ''b'']) (top_ctx\<lparr>listDepth := 2\<rparr>) = ''  - b''"
    by (subst list_rendering[THEN conjunct1]) code_simp
  have b: "convertListItem bare_browser (Element ''li'' [] [Text ''b''])
     (top_ctx\<lparr>listDepth := 2, listOrdered := True, listIndex := 12\<rparr>) = ''  12. b''"
    by (subst list_rendering[THEN conjunct1]) code_simp
  have c: "convertListItems bare_browser [Element ''li'' [] [Text ''b''], Text ''  '', Element ''li'' [] [Text ''c'']]
     (top_ctx\<lparr>listDepth := 1\<rparr>) True 1 = [''  1. b'', ''  2. c'']"
    by code_simp
  from a b c show ?thesis by simp
qed

text \<open>
  The claim as stated fails for an item that has no text of its own: its line is the
  bare marker, not the marker followed by a space.
\<close>

theorem list_bullet_counterexample:
  "convertListItem bare_browser list_only_item (top_ctx\<lparr>listDepth := 1\<rparr>) = ''-'' @ [LF] @ ''  - x'' \<and>
   \<not> prefix ''- '' (convertListItem bare_browser list_only_item (top_ctx\<lparr>listDepth := 1\<rparr>)) \<and>
   convertNode bare_browser (Element ''ul'' [] [list_only_item]) top_ctx = ''-'' @ [LF] @ ''  - x'' @ [LF, LF]"
  by code_simp

section \<open>The contract of the poller\<close>

lemma poll_once_throw: "fn w = (Inl e, w1) \<Longrightarrow> poll_once T fn w = (Inr None, w1)"
  by (simp add: poll_once_def try_catch_def bind_def ret_def)

lemma poll_once_value:
  "fn w = (Inr r, w1) \<Longrightarrow> poll_once T fn w = (Inr (if truthy T r then Some r else None), w1)"
  by (simp add: poll_once_def try_catch_def bind_def ret_def)

lemma poll_once_cases:
  obtains (ready) r w1 where "fn w = (Inr r, w1)" "truthy T r" "poll_once T fn w = (Inr (Some r), w1)"
  | (not_ready) "poll_once T fn w = (Inr None, snd (fn w))"
proof (cases "fn w")
  case (Pair res w1)
  show ?thesis
  proof (cases res)
    case (Inl e)
    with Pair have "poll_once T fn w = (Inr None, snd (fn w))" by (simp add: poll_once_throw)
    then show ?thesis by (rule not_ready)
  next
    case (Inr r)
    show ?thesis
    proof (cases "truthy T r")
      case True
      with Pair Inr show ?thesis using ready[of r w1] by (simp add: poll_once_value)
    next
      case False
      with Pair Inr have "poll_once T fn w = (Inr None, snd (fn w))" by (simp add: poll_once_value)
      then show ?thesis by (rule not_ready)
    qed
  qed
qed

lemma waitFor_loop_result:
  assumes "waitFor_loop T fn start timeout interval w = Some y"
  shows "(fst y = Inr None \<and> timeout \<le> now T (snd y) - start) \<or>
         (\<exists>v w0. fst y = Inr (Some v) \<and> truthy T v \<and> fn w0 = (Inr v, snd y))"
proof (rule waitFor_loop.raw_induct[where P = "\<lambda>T fn start timeout interval w y.
         (fst y = Inr None \<and> timeout \<le> now T (snd y) - start) \<or>
         (\<exists>v w0. fst y = Inr (Some v) \<and> truthy T v \<and> fn w0 = (Inr v, snd y))", OF _ assms])
  fix loop :: "('a, 'b) timing \<Rightarrow> ('a, 'b) prog \<Rightarrow> int \<Rightarrow> int \<Rightarrow> int \<Rightarrow> 'b \<Rightarrow> ((exn + 'a option) \<times> 'b) option"
  fix T fn start timeout interval w y
  assume IH: "\<And>T fn start timeout interval w y. loop T fn start timeout interval w = Some y \<Longrightarrow>
         (fst y = Inr None \<and> timeout \<le> now T (snd y) - start) \<or>
         (\<exists>v w0. fst y = Inr (Some v) \<and> truthy T v \<and> fn w0 = (Inr v, snd y))"
  assume step: "(if now T w - start < timeout
      then case poll_once T fn w of (Inl e, w') \<Rightarrow> Some (Inl e, w')
           | (Inr None, w') \<Rightarrow> loop T fn start timeout interval (setTimeout T interval w')
           | (Inr (Some result), w') \<Rightarrow> Some (Inr (Some result), w')
      else Some (Inr None, w)) = Some y"
  show "(fst y = Inr None \<and> timeout \<le> now T (snd y) - start) \<or>
         (\<exists>v w0. fst y = Inr (Some v) \<and> truthy T v \<and> fn w0 = (Inr v, snd y))"
  proof (cases "now T w - start < timeout")
    case False
    with step show ?thesis by auto
  next
    case True
    show ?thesis
    proof (cases rule: poll_once_cases[of fn w T])
      case (ready v w1)
      with True step show ?thesis by auto
    next
      case not_ready
      with True step have "loop T fn start timeout interval (setTimeout T interval (snd (fn w))) = Some y"
        by simp
      then show ?thesis by (rule IH)
    qed
  qed
qed

lemma waitFor_loop_returns:
  assumes progress: "\<And>w. now T w < now T (setTimeout T interval (snd (fn w)))"
  shows "\<exists>y. waitFor_loop T fn start timeout interval w = Some y"
proof (induction w rule: measure_induct_rule[where f = "\<lambda>w. nat (start + timeout - now T w)"])
  case (less w)
  show ?case
  proof (cases "now T w - start < timeout")
    case False
    then show ?thesis by (subst waitFor_loop.simps) simp
  next
    case True
    show ?thesis
    proof (cases rule: poll_once_cases[of fn w T])
      case (ready v w1)
      with True show ?thesis by (subst waitFor_loop.simps) simp
    next
      case not_ready
      let ?w = "setTimeout T interval (snd (fn w))"
      have "nat (start + timeout - now T ?w) < nat (start + timeout - now T w)"
        using progress[of w] True by linarith
      then obtain y where "waitFor_loop T fn start timeout interval ?w = Some y"
        using less by blast
      with True not_ready show ?thesis by (subst waitFor_loop.simps) simp
    qed
  qed
qed

lemma clock_page_sel:
  "now clock_page w = w" "setTimeout clock_page i w = w + i" "truthy clock_page v = v"
  by (simp_all add: clock_page_def)

text \<open>
  Claim C6. \<open>waitFor\<close> evaluates the condition once per round until it yields a truthy
  value, and returns that value; a round whose condition throws continues exactly like a
  round whose condition is falsy ("not yet ready"); once the timeout has elapsed it
  returns \<open>null\<close>. Whatever the condition does, \<open>waitFor\<close> never throws. When every
  round (one poll, then the timer) moves the clock forward, the call does return, with
  a truthy value of the condition or with \<open>null\<close> after the timeout has elapsed.
\<close>

theorem waitFor_contract:
  "waitFor_loop T fn start timeout interval w =
     (if now T w - start < timeout then
        (case fn w of
           (Inr v, w1) \<Rightarrow>
             if truthy T v then Some (Inr (Some v), w1)
             else waitFor_loop T fn start timeout interval (setTimeout T interval w1)
         | (Inl e, w1) \<Rightarrow> waitFor_loop T fn start timeout interval (setTimeout T interval w1))
      else Some (Inr None, w)) \<and>
   waitFor T fn timeout interval w \<noteq> Some (Inl e, w') \<and>
   ((\<forall>u. now T u < now T (setTimeout T interval (snd (fn u)))) \<longrightarrow>
      (\<exists>r w''. waitFor T fn timeout interval w = Some (Inr r, w'') \<and>
         (case r of
            Some v \<Rightarrow> truthy T v \<and> (\<exists>w0. fn w0 = (Inr v, w''))
          | None \<Rightarrow> timeout \<le> now T w'' - now T w)))"
proof (intro conjI impI)
  show "waitFor_loop T fn start timeout interval w =
     (if now T w - start < timeout then
        (case fn w of
           (Inr v, w1) \<Rightarrow>
             if truthy T v then Some (Inr (Some v), w1)
             else waitFor_loop T fn start timeout interval (setTimeout T interval w1)
         | (Inl e, w1) \<Rightarrow> waitFor_loop T fn start timeout interval (setTimeout T interval w1))
      else Some (Inr None, w))"
  proof (cases "fn w")
    case (Pair res w1)
    then show ?thesis
      by (subst waitFor_loop.simps)
         (cases res; simp add: poll_once_throw poll_once_value)
  qed
next
  show "waitFor T fn timeout interval w \<noteq> Some (Inl e, w')"
  proof
    assume "waitFor T fn timeout interval w = Some (Inl e, w')"
    then have "waitFor_loop T fn (now T w) timeout interval w = Some (Inl e, w')"
      by (simp add: waitFor_def)
    from waitFor_loop_result[OF this] show False by simp
  qed
next
  assume "\<forall>u. now T u < now T (setTimeout T interval (snd (fn u)))"
  then have "\<exists>y. waitFor_loop T fn (now T w) timeout interval w = Some y"
    by (intro waitFor_loop_returns) simp
  then obtain y where y: "waitFor_loop T fn (now T w) timeout interval w = Some y" ..
  from waitFor_loop_result[OF y]
  consider "fst y = Inr None" "timeout \<le> now T (snd y) - now T w"
    | v w0 where "fst y = Inr (Some v)" "truthy T v" "fn w0 = (Inr v, snd y)"
    by blast
  then show "\<exists>r w''. waitFor T fn timeout interval w = Some (Inr r, w'') \<and>
         (case r of
            Some v \<Rightarrow> truthy T v \<and> (\<exists>w0. fn w0 = (Inr v, w''))
          | None \<Rightarrow> timeout \<le> now T w'' - now T w)"
  proof cases
    case 1
    with y have "waitFor T fn timeout interval w = Some (Inr None, snd y)"
      by (cases y) (simp add: waitFor_def)
    with 1 show ?thesis by auto
  next
    case (2 v w0)
    with y have "waitFor T fn timeout interval w = Some (Inr (Some v), snd y)"
      by (cases y) (simp add: waitFor_def)
    with 2 show ?thesis by auto
  qed
qed

theorem waitFor_contract_witness:
  "(\<forall>u. now clock_page u < now clock_page (setTimeout clock_page 100 (snd (flaky_condition u)))) \<and>
   waitFor clock_page flaky_condition 1000 100 0 = Some (Inr (Some True), 200) \<and>
   waitFor clock_page flaky_condition 150 100 0 = Some (Inr None, 200)"
proof -
  have unfold: "\<And>start timeout w. waitFor_loop clock_page flaky_condition start timeout 100 w =
     (if now clock_page w - start < timeout then
        (case flaky_condition w of
           (Inr v, w1) \<Rightarrow>
             if truthy clock_page v then Some (Inr (Some v), w1)
             else waitFor_loop clock_page flaky_condition start timeout 100 (setTimeout clock_page 100 w1)
         | (Inl e, w1) \<Rightarrow> waitFor_loop clock_page flaky_condition start timeout 100 (setTimeout clock_page 100 w1))
      else Some (Inr None, w))"
    using waitFor_contract[of clock_page flaky_condition _ _ 100] by blast
  have progress: "\<forall>u. now clock_page u < now clock_page (setTimeout clock_page 100 (snd (flaky_condition u)))"
    by (simp add: clock_page_sel flaky_condition_def)
  have "waitFor_loop clock_page flaky_condition 0 1000 100 0 =
        waitFor_loop clock_page flaky_condition 0 1000 100 100"
    by (subst unfold) (simp add: clock_page_sel flaky_condition_def)
  also have "\<dots> = waitFor_loop clock_page flaky_condition 0 1000 100 200"
    by (subst unfold) (simp add: clock_page_sel flaky_condition_def)
  also have "\<dots> = Some (Inr (Some True), 200)"
    by (subst unfold) (simp add: clock_page_sel flaky_condition_def)
  finally have a: "waitFor clock_page flaky_condition 1000 100 0 = Some (Inr (Some True), 200)"
    by (simp add: waitFor_def clock_page_sel)
  have "waitFor_loop clock_page flaky_condition 0 150 100 0 =
        waitFor_loop clock_page flaky_condition 0 150 100 100"
    by (subst unfold) (simp add: clock_page_sel flaky_condition_def)
  also have "\<dots> = waitFor_loop clock_page flaky_condition 0 150 100 200"
    by (subst unfold) (simp add: clock_page_sel flaky_condition_def)
  also have "\<dots> = Some (Inr None, 200)"
    by (subst unfold) (simp add: clock_page_sel flaky_condition_def)
  finally have b: "waitFor clock_page flaky_condition 150 100 0 = Some (Inr None, 200)"
    by (simp add: waitFor_def clock_page_sel)
  from progress a b show ?thesis by simp
qed

section \<open>The extraction call on a two-turn conversation\<close>

lemma strip_gemini_prefix_set: "set (strip_gemini_prefix raw) \<subseteq> set raw"
proof -
  have "set (dropWhile is_space rest) \<subseteq> set raw"
    if "dropWhile is_space (drop 6 raw) = c # rest" for c rest
  proof -
    have "set (dropWhile is_space rest) \<subseteq> set rest" by (auto dest: set_dropWhileD)
    also have "\<dots> \<subseteq> set (dropWhile is_space (drop 6 raw))" using that by auto
    also have "\<dots> \<subseteq> set (drop 6 raw)" by (auto dest: set_dropWhileD)
    also have "\<dots> \<subseteq> set raw" by (rule set_drop_subset)
    finally show ?thesis .
  qed
  then show ?thesis
    by (auto simp: strip_gemini_prefix_def split: list.splits)
qed

lemma getThreadTitle_shape:
  "getThreadTitle d \<noteq> [] \<and> \<not> is_space (last (getThreadTitle d)) \<and>
   set (getThreadTitle d) \<subseteq> set d \<union> set ''Gemini''"
proof (cases "trim (strip_gemini_prefix (trim d)) = []")
  case True
  then show ?thesis by (simp add: getThreadTitle_def Let_def is_space_def)
next
  case False
  have "set (trim (strip_gemini_prefix (trim d))) \<subseteq> set d"
    using trim_set[of "strip_gemini_prefix (trim d)"] strip_gemini_prefix_set[of "trim d"] trim_set[of d]
    by blast
  with False trim_last[OF False] show ?thesis
    by (auto simp: getThreadTitle_def Let_def)
qed

lemma nbl_append_no_LF:
  "LF \<notin> set a \<Longrightarrow> a = [] \<or> \<not> is_blank (last a) \<Longrightarrow> no_blank_nl (a @ b) = no_blank_nl b"
proof (induction a)
  case Nil then show ?case by simp
next
  case (Cons x a)
  show ?case
  proof (cases "a = []")
    case True
    with Cons.prems show ?thesis by (simp add: nbl_Cons)
  next
    case False
    with Cons.prems have "hd (a @ b) \<noteq> LF" by (cases a) auto
    moreover from False Cons have "no_blank_nl (a @ b) = no_blank_nl b" by simp
    ultimately show ?thesis by (simp add: nbl_Cons)
  qed
qed

lemma short_append_no_LF: "LF \<notin> set a \<Longrightarrow> short_nl_runs k (a @ b) = short_nl_runs k b"
  by (induction a) auto

lemma is_blank_space: "is_blank c \<Longrightarrow> is_space c"
  by (auto simp: is_blank_def is_space_def)

lemma cleanup_titled_document:
  assumes title: "title \<noteq> []" "LF \<notin> set title" "CR \<notin> set title" "\<not> is_space (last title)"
    and tail: "CR \<notin> set tail" "no_blank_nl (tail @ [LF])" "short_nl_runs 3 (tail @ [LF])"
      "tail \<noteq> []" "\<not> is_space (last tail)"
  shows "cleanupMarkdown (''# '' @ title @ tail @ [LF]) = ''# '' @ title @ tail"
proof -
  let ?head = "''# '' @ title"
  let ?s = "?head @ tail @ [LF]"
  have cr: "CR \<notin> set ?s" using title(3) tail(1) by simp
  have "LF \<notin> set ?head" using title(2) by simp
  moreover have "\<not> is_blank (last ?head)" using title(1,4) is_blank_space by auto
  ultimately have nbl: "no_blank_nl ?s" and short: "short_nl_runs 3 ?s"
    using tail(2,3) nbl_append_no_LF[of ?head "tail @ [LF]"] short_append_no_LF[of ?head 3 "tail @ [LF]"]
    by auto
  have "cleanupMarkdown ?s = trim ?s"
    unfolding cleanupMarkdown_def
    by (simp only: replace_crlf_id[OF cr] replace_cr_id[OF cr] strip_id[OF nbl] replace_short_id[OF short])
  also have "\<dots> = trimEnd ?s" by (simp add: trim_def trimStart_def is_space_def)
  also have "\<dots> = trimEnd ((?head @ tail) @ [LF])" by simp
  also have "\<dots> = trimEnd (?head @ tail)" by (rule trimEnd_snoc_space) (simp add: is_space_def)
  also have "\<dots> = ?head @ tail" using tail(4,5) by (intro trimEnd_id) simp
  finally show ?thesis by simp
qed


lemma hello_tail_clean:
  "CR \<notin> set hello_tail" "no_blank_nl (hello_tail @ [LF])" "short_nl_runs 3 (hello_tail @ [LF])"
  "hello_tail \<noteq> []" "\<not> is_space (last hello_tail)"
  by (simp_all add: hello_tail_def is_blank_def is_space_def)

text \<open>
  Claim C3. On the host page, for a root whose collected turns are one user turn with
  the rendered body \<open>Hello\<close> and one assistant turn with the rendered body \<open>Hi there\<close>,
  in that order, the call without artifacts returns the title line \<open># title\<close>, a blank
  line, \<open>## User\<close>, \<open>Hello\<close>, a blank line, \<open>---\<close>, a blank line, \<open>## Gemini\<close>,
  \<open>Hi there\<close>, a blank line and \<open>---\<close>, with nothing after it. The same is returned
  when artifacts are asked for and there is none, nor a reference to one. The title is
  that of \<open>getThreadTitle\<close>; \<open>document.title\<close> holds no line break, as the browser
  guarantees.
\<close>

theorem hello_scenario:
  assumes host: "endsWith (hostname pg) ''gemini.google.com''"
    and root: "root pg = Some r"
    and turns: "collectConversationNodes r = [u, m]"
    and speakers: "getSpeaker u = ''User''" "getSpeaker m = ''Gemini''"
    and bodies: "trim (htmlToMarkdown B (snd (getBestContentNode u))) = ''Hello''"
      "trim (htmlToMarkdown B (snd (getBestContentNode m))) = ''Hi there''"
    and title: "LF \<notin> set (document_title pg)" "CR \<notin> set (document_title pg)"
  shows "extractMarkdownFromPage B U pg False w =
           (Inr (''# '' @ getThreadTitle (document_title pg) @ [LF, LF] @
                 ''## User'' @ [LF] @ ''Hello'' @ [LF, LF] @ ''---'' @ [LF, LF] @
                 ''## Gemini'' @ [LF] @ ''Hi there'' @ [LF, LF] @ ''---''), w) \<and>
         (\<forall>w1 w2. extractAllCanvasContent U w = (Inr [], w1) \<longrightarrow>
            checkForCanvasReference U w1 = (Inr False, w2) \<longrightarrow>
            extractMarkdownFromPage B U pg True w =
              (Inr (''# '' @ getThreadTitle (document_title pg) @ [LF, LF] @
                    ''## User'' @ [LF] @ ''Hello'' @ [LF, LF] @ ''---'' @ [LF, LF] @
                    ''## Gemini'' @ [LF] @ ''Hi there'' @ [LF, LF] @ ''---''), w2))"
proof -
  let ?title = "getThreadTitle (document_title pg)"
  let ?output = "[''# '' @ ?title, []] @ concat (map (turn_lines B) [u, m])"
  have shape: "?title \<noteq> []" "\<not> is_space (last ?title)" "LF \<notin> set ?title" "CR \<notin> set ?title"
    using getThreadTitle_shape[of "document_title pg"] title by auto
  have lines: "concat (map (turn_lines B) [u, m]) =
      [''## User'', ''Hello'', [], ''---'', [], ''## Gemini'', ''Hi there'', [], ''---'', []]"
    using speakers bodies by (simp add: turn_lines_def Let_def)
  have joined: "join [LF] ?output = ''# '' @ ?title @ hello_tail @ [LF]"
    unfolding lines by (simp add: hello_tail_def)
  have clean: "cleanupMarkdown (join [LF] ?output) = ''# '' @ ?title @ hello_tail"
    unfolding joined using shape hello_tail_clean by (intro cleanup_titled_document)
  have plain: "extractMarkdownFromPage B U pg False w = (Inr (''# '' @ ?title @ hello_tail), w)"
    using host root turns clean by (simp add: extractMarkdownFromPage_def Let_def)
  have canvas: "extractMarkdownFromPage B U pg True w = (Inr (''# '' @ ?title @ hello_tail), w2)"
    if "extractAllCanvasContent U w = (Inr [], w1)" "checkForCanvasReference U w1 = (Inr False, w2)"
    for w1 w2
    using host root turns clean that
    by (simp add: extractMarkdownFromPage_def canvas_lines_def bind_def ret_def Let_def)
  from plain canvas show ?thesis by (simp add: hello_tail_def)
qed

theorem hello_scenario_witness:
  "extractMarkdownFromPage bare_browser (demo_ui all_open no_content) hello_page False 0 =
     (Inr (''# Greetings'' @ [LF, LF] @
           ''## User'' @ [LF] @ ''Hello'' @ [LF, LF] @ ''---'' @ [LF, LF] @
           ''## Gemini'' @ [LF] @ ''Hi there'' @ [LF, LF] @ ''---''), 0) \<and>
   extractMarkdownFromPage bare_browser (demo_ui all_open no_content) hello_page True 0 =
     (Inr (''# Greetings'' @ [LF, LF] @
           ''## User'' @ [LF] @ ''Hello'' @ [LF, LF] @ ''---'' @ [LF, LF] @
           ''## Gemini'' @ [LF] @ ''Hi there'' @ [LF, LF] @ ''---''), 13)"
proof -
  have host: "endsWith (hostname hello_page) ''gemini.google.com''"
    by (simp add: hello_page_def endsWith_def)
  have root: "root hello_page = Some hello_root" by (simp add: hello_page_def)
  have turns: "collectConversationNodes hello_root = [hello_user, hello_model]" by code_simp
  have speakers: "getSpeaker hello_user = ''User''" "getSpeaker hello_model = ''Gemini''"
    by code_simp+
  have bodies: "trim (htmlToMarkdown bare_browser (snd (getBestContentNode hello_user))) = ''Hello''"
    "trim (htmlToMarkdown bare_browser (snd (getBestContentNode hello_model))) = ''Hi there''"
    by code_simp+
  have title: "LF \<notin> set (document_title hello_page)" "CR \<notin> set (document_title hello_page)"
    "getThreadTitle (document_title hello_page) = ''Greetings''"
    by (simp_all add: hello_page_def) code_simp
  have canvas: "extractAllCanvasContent (demo_ui all_open no_content) 0 = (Inr [], 12)"
    "checkForCanvasReference (demo_ui all_open no_content) 12 = (Inr False, 13)"
    by code_simp+
  from hello_scenario[OF host root turns speakers bodies title(1,2),
         of "demo_ui all_open no_content" 0] canvas title(3)
  show ?thesis by simp
qed

end
